theory Spec2Isabelle
  imports Complex_Main
begin

section \<open>Python values, records and errors\<close>

text \<open>
  Annotation records are Python dicts from field names to values. The claims only look
  at \<open>None\<close> and at strings (the identifiers); every other value (numbers, lists,
  nested documents) is a \<open>PyObj\<close>, compared with Python's \<open>==\<close>.
\<close>

datatype 'a pyval = PyNone | PyStr string | PyObj 'a

type_synonym 'a pydict = "string \<rightharpoonup> 'a pyval"

text \<open>
  The arguments of a \<open>str.format\<close> call are kept as values between the literal pieces
  of the template; how \<open>str()\<close> prints a value is not modelled.
\<close>

datatype 'a msg_part = Txt string | Arg "'a pyval"

datatype 'a error =
    KeyError string
  | IndexError
  | ZeroDivisionError
  | IOError string
  | OverflowError
  | RecursionError
  | ValueError "'a msg_part list"

section \<open>Identifier normalisation\<close>

text \<open>\<open>s.split(c)\<close> for a one-character separator: always at least one piece.\<close>

fun split_on :: "char \<Rightarrow> string \<Rightarrow> string list" where
  "split_on c [] = [[]]"
| "split_on c (x # xs) =
     (if x = c then [] # split_on c xs
      else (case split_on c xs of
              [] \<Rightarrow> [[x]]
            | w # ws \<Rightarrow> (x # w) # ws))"

text \<open>\<open>p in s\<close> for strings: \<open>p\<close> occurs in \<open>s\<close> as a contiguous piece.\<close>

fun starts_with :: "string \<Rightarrow> string \<Rightarrow> bool" where
  "starts_with s [] = True"
| "starts_with [] (p # ps) = False"
| "starts_with (x # xs) (p # ps) = (x = p \<and> starts_with xs ps)"

fun str_in :: "string \<Rightarrow> string \<Rightarrow> bool" where
  "str_in p [] = (p = [])"
| "str_in p (x # xs) = (starts_with (x # xs) p \<or> str_in p xs)"

text \<open>
  \<^verbatim>\<open>
  def _complete_chromosome(hgvs_id):
      result = hgvs_id
      if 'M' in hgvs_id:
          one = hgvs_id.split(':')[0]
          two = hgvs_id.split(':')[1]
          if 'MT' not in one:
              one = 'chrMT'
          result = "".join([one, ':', two])
      return result
  \<close>
  \<open>split(':')[0]\<close> always exists; \<open>split(':')[1]\<close> raises IndexError when the
  identifier has no colon.
\<close>

definition complete_chromosome :: "string \<Rightarrow> 'a error + string" where
  "complete_chromosome hgvs_id =
     (if str_in ''M'' hgvs_id then
        (case split_on CHR '':'' hgvs_id of
           one # two # rest \<Rightarrow>
             Inr ((if \<not> str_in ''MT'' one then ''chrMT'' else one) @ '':'' @ two)
         | _ \<Rightarrow> Inl IndexError)
      else Inr hgvs_id)"

section \<open>Deriving identifiers from a VCF chunk\<close>

text \<open>
  A record of the VCF reader: \<open>ALT\<close> is the list of alternate alleles, where the
  reader puts \<open>None\<close> for a missing allele.
\<close>

record vcf_record =
  CHROM :: string
  POS :: nat
  REF :: string
  ALT :: "string option list"

definition py_str :: "string option \<Rightarrow> string" where
  "py_str a = (case a of None \<Rightarrow> ''None'' | Some s \<Rightarrow> s)"

text \<open>\<open>itertools.islice(it, start, stop)\<close> on the sequence of the reader's records.\<close>

definition islice :: "'b list \<Rightarrow> nat \<Rightarrow> nat \<Rightarrow> 'b list" where
  "islice xs start stop = take (stop - start) (drop start xs)"

text \<open>
  \<^verbatim>\<open>
  def _get_hgvs_ids_from_vcf(vcf_file_path, chunk_index, chunk_size):
      reader = vcf.Reader(open(vcf_file_path, 'r'))
      hgvs_ids = []
      for record in itertools.islice(reader, chunk_index * chunk_size, (chunk_index + 1) * chunk_size):
          hgvs_id = myvariant.format_hgvs(record.CHROM, record.POS, record.REF, str(record.ALT[0]))
          normed_hgvs_id = _complete_chromosome(hgvs_id)
          hgvs_ids.append(normed_hgvs_id)
      return hgvs_ids
  \<close>
  \<open>myvariant.format_hgvs\<close> belongs to an external library and may raise: it is the
  parameter \<open>format_hgvs\<close>. The records the reader yields for the file are the
  parameter \<open>reader\<close>.
\<close>

fun hgvs_ids_loop ::
  "(string \<Rightarrow> nat \<Rightarrow> string \<Rightarrow> string \<Rightarrow> 'a error + string) \<Rightarrow>
   vcf_record list \<Rightarrow> string list \<Rightarrow> 'a error + string list" where
  "hgvs_ids_loop format_hgvs [] hgvs_ids = Inr hgvs_ids"
| "hgvs_ids_loop format_hgvs (r # rs) hgvs_ids =
     (case ALT r of
        [] \<Rightarrow> Inl IndexError
      | a # _ \<Rightarrow>
          (case format_hgvs (CHROM r) (POS r) (REF r) (py_str a) of
             Inl e \<Rightarrow> Inl e
           | Inr hgvs_id \<Rightarrow>
               (case complete_chromosome hgvs_id of
                  Inl e \<Rightarrow> Inl e
                | Inr normed_hgvs_id \<Rightarrow>
                    hgvs_ids_loop format_hgvs rs (hgvs_ids @ [normed_hgvs_id]))))"

definition get_hgvs_ids_from_vcf ::
  "(string \<Rightarrow> nat \<Rightarrow> string \<Rightarrow> string \<Rightarrow> 'a error + string) \<Rightarrow>
   vcf_record list \<Rightarrow> nat \<Rightarrow> nat \<Rightarrow> 'a error + string list" where
  "get_hgvs_ids_from_vcf format_hgvs reader chunk_index chunk_size =
     hgvs_ids_loop format_hgvs
       (islice reader (chunk_index * chunk_size) ((chunk_index + 1) * chunk_size)) []"

section \<open>The job partitioner\<close>

text \<open>A job is a tuple of parameters, addressed by the indices of the registry class.\<close>

datatype param = NoParam | IntParam int | StrParam string | NamesParam "string list"

definition CHUNK_INDEX_INDEX :: nat where "CHUNK_INDEX_INDEX = 0"
definition FILE_PATH_INDEX :: nat where "FILE_PATH_INDEX = 1"
definition CHUNK_SIZE_INDEX :: nat where "CHUNK_SIZE_INDEX = 2"
definition DB_NAME_INDEX :: nat where "DB_NAME_INDEX = 3"
definition COLLECTION_NAME_INDEX :: nat where "COLLECTION_NAME_INDEX = 4"
definition GENOME_BUILD_VERSION_INDEX :: nat where "GENOME_BUILD_VERSION_INDEX = 5"
definition VERBOSE_LEVEL_INDEX :: nat where "VERBOSE_LEVEL_INDEX = 6"
definition SAMPLE_LIST_INDEX :: nat where "SAMPLE_LIST_INDEX = 7"

definition get_num_possible_indices :: nat where
  "get_num_possible_indices =
     fold max [FILE_PATH_INDEX, CHUNK_SIZE_INDEX, DB_NAME_INDEX, COLLECTION_NAME_INDEX,
               GENOME_BUILD_VERSION_INDEX, VERBOSE_LEVEL_INDEX, SAMPLE_LIST_INDEX]
       CHUNK_INDEX_INDEX + 1"

text \<open>
  The loop of the partitioner: the shared list is updated with the chunk index and a
  copy of it (\<open>tuple(shared_job_params)\<close>) is appended.
\<close>

fun jobs_loop :: "nat list \<Rightarrow> param list \<Rightarrow> param list list \<Rightarrow> param list list" where
  "jobs_loop [] shared_job_params jobs_params_tuples_list = jobs_params_tuples_list"
| "jobs_loop (curr_chunk_index # rest) shared_job_params jobs_params_tuples_list =
     (let shared' = shared_job_params[CHUNK_INDEX_INDEX := IntParam (int curr_chunk_index)]
      in jobs_loop rest shared' (jobs_params_tuples_list @ [shared']))"

text \<open>
  Both modules import \<open>division\<close> from \<open>__future__\<close>, so \<open>num_lines / chunk_size\<close>
  is the true division of two integers: the interpreter returns the double nearest to the
  exact quotient, ties going to the even significand, raises ZeroDivisionError for a zero
  divisor and OverflowError when the result is too large for a double. A double has a
  significand of 53 bits and its last bit has exponent at least \<open>- 1074\<close>.

  \<open>bit_length\<close> is \<open>int.bit_length\<close>. \<open>quotient_exponent a b\<close> is the exponent \<open>e\<close> with
  \<open>2 ^ e \<le> a / b < 2 ^ (e + 1)\<close>, found from the bit lengths of the operands.
  \<open>round_half_even n d\<close> is the integer nearest to \<open>n / d\<close>, ties to even.
\<close>

fun bit_length :: "nat \<Rightarrow> nat" where
  "bit_length n = (if n = 0 then 0 else Suc (bit_length (n div 2)))"

declare bit_length.simps [simp del]

definition quotient_exponent :: "nat \<Rightarrow> nat \<Rightarrow> int" where
  "quotient_exponent a b =
     (let d = int (bit_length a) - int (bit_length b)
      in if b * 2 ^ nat d \<le> a * 2 ^ nat (- d) then d else d - 1)"

definition round_half_even :: "nat \<Rightarrow> nat \<Rightarrow> nat" where
  "round_half_even n d =
     (let q = n div d; r = n mod d
      in if 2 * r < d then q
         else if d < 2 * r then q + 1
         else if even q then q else q + 1)"

definition true_divide :: "nat \<Rightarrow> nat \<Rightarrow> 'a error + real" where
  "true_divide a b =
     (if b = 0 then Inl ZeroDivisionError
      else if a = 0 then Inr 0
      else
        let e = max (quotient_exponent a b - 52) (- 1074);
            m = round_half_even (a * 2 ^ nat (- e)) (b * 2 ^ nat e);
            x = real m * 2 ^ nat e / 2 ^ nat (- e)
        in if 2 ^ 1024 \<le> x then Inl OverflowError else Inr x)"

text \<open>\<open>int(x)\<close> for a float: truncation towards zero.\<close>

definition py_int :: "real \<Rightarrow> int" where
  "py_int x = (if 0 \<le> x then \<lfloor>x\<rfloor> else \<lceil>x\<rceil>)"

text \<open>
  \<^verbatim>\<open>
  num_steps = int(num_file_lines / chunk_size) + 1
  for curr_chunk_index in range(num_steps): ...
  \<close>
  The line count is a natural number, and so is the chunk size: the positive sizes the
  callers pass, and zero.
\<close>

definition chunk_indices :: "real \<Rightarrow> nat list" where
  "chunk_indices ratio = (let num_steps = py_int ratio + 1 in [0..<nat num_steps])"

definition shared_params ::
  "string \<Rightarrow> nat \<Rightarrow> string \<Rightarrow> string \<Rightarrow> string \<Rightarrow> string list option \<Rightarrow> int \<Rightarrow> param list" where
  "shared_params file_path chunk_size db_name collection_name genome_build_version
       sample_names_list verbose_level =
     (let num_params = get_num_possible_indices;
          shared_job_params =
            (case sample_names_list of
               Some names \<Rightarrow> (replicate num_params NoParam)[SAMPLE_LIST_INDEX := NamesParam names]
             | None \<Rightarrow> replicate (num_params - 1) NoParam)
      in shared_job_params
           [CHUNK_SIZE_INDEX := IntParam (int chunk_size),
            FILE_PATH_INDEX := StrParam file_path,
            DB_NAME_INDEX := StrParam db_name,
            COLLECTION_NAME_INDEX := StrParam collection_name,
            GENOME_BUILD_VERSION_INDEX := StrParam genome_build_version,
            VERBOSE_LEVEL_INDEX := IntParam verbose_level])"

text \<open>\<open>VaprAnnotator._make_jobs_params_tuples_list\<close> (vapr\_core.py), given the line count.\<close>

definition make_jobs_params_tuples_list ::
  "string \<Rightarrow> nat \<Rightarrow> nat \<Rightarrow> string \<Rightarrow> string \<Rightarrow> string \<Rightarrow> string list option \<Rightarrow> int \<Rightarrow>
   'a error + param list list" where
  "make_jobs_params_tuples_list file_path num_file_lines chunk_size db_name collection_name
       genome_build_version sample_names_list verbose_level =
     (let shared_job_params =
            shared_params file_path chunk_size db_name collection_name genome_build_version
              sample_names_list verbose_level
      in case true_divide num_file_lines chunk_size of
           Inl e \<Rightarrow> Inl e
         | Inr ratio \<Rightarrow> Inr (jobs_loop (chunk_indices ratio) shared_job_params []))"

text \<open>
  \<open>AnnotationProject._make_jobs_params_tuples_list\<close> (annotation\_project.py) counts the
  lines of the file itself (\<open>_get_num_lines_in_file\<close>). The file system maps a path
  to the lines of the file; opening a missing file raises.
\<close>

definition get_num_lines_in_file :: "(string \<rightharpoonup> string list) \<Rightarrow> string \<Rightarrow> 'a error + nat" where
  "get_num_lines_in_file fs file_path =
     (case fs file_path of None \<Rightarrow> Inl (IOError file_path) | Some file_obj \<Rightarrow> Inr (length file_obj))"

definition project_make_jobs_params_tuples_list ::
  "(string \<rightharpoonup> string list) \<Rightarrow> string \<Rightarrow> nat \<Rightarrow> string \<Rightarrow> string \<Rightarrow> string \<Rightarrow>
   string list option \<Rightarrow> int \<Rightarrow> 'a error + param list list" where
  "project_make_jobs_params_tuples_list fs file_path chunk_size db_name collection_name
       genome_build_version sample_names_list verbose_level =
     (let shared_job_params =
            shared_params file_path chunk_size db_name collection_name genome_build_version
              sample_names_list verbose_level
      in case get_num_lines_in_file fs file_path of
           Inl e \<Rightarrow> Inl e
         | Inr num_lines \<Rightarrow>
             (case true_divide num_lines chunk_size of
                Inl e \<Rightarrow> Inl e
              | Inr ratio \<Rightarrow> Inr (jobs_loop (chunk_indices ratio) shared_job_params [])))"

text \<open>
  What a worker reads back from a job tuple, and the half-open range of lines
  \<open>[chunk_index * chunk_size, (chunk_index + 1) * chunk_size)\<close> it slices from the file.
\<close>

definition job_int :: "param list \<Rightarrow> nat \<Rightarrow> int" where
  "job_int job_params_tuple i = (case job_params_tuple ! i of IntParam n \<Rightarrow> n | _ \<Rightarrow> 0)"

definition job_line_range :: "param list \<Rightarrow> int \<times> int" where
  "job_line_range job_params_tuple =
     (let chunk_index = job_int job_params_tuple CHUNK_INDEX_INDEX;
          chunk_size = job_int job_params_tuple CHUNK_SIZE_INDEX
      in (chunk_index * chunk_size, (chunk_index + 1) * chunk_size))"

definition job_lines :: "param list \<Rightarrow> int set" where
  "job_lines job_params_tuple = {fst (job_line_range job_params_tuple) ..< snd (job_line_range job_params_tuple)}"

section \<open>The remote annotation client\<close>

text \<open>\<open>d.pop(k, default)\<close>: the value removed and the dict without the key.\<close>

definition dict_pop :: "'a pydict \<Rightarrow> string \<Rightarrow> 'a pyval \<Rightarrow> 'a pyval \<times> 'a pydict" where
  "dict_pop d k dflt = (case d k of None \<Rightarrow> (dflt, d) | Some v \<Rightarrow> (v, d(k := None)))"

text \<open>
  \<^verbatim>\<open>
  def _remove_id_key(variant_data):
      for dic in variant_data:
          dic['hgvs_id'] = dic.pop("_id", None)
          dic['hgvs_id'] = dic.pop("query", None)
      return variant_data
  \<close>
  The records of a response are separate objects, so the loop that updates each of
  them in place is a map over their contents.
\<close>

definition remove_id_key_dic :: "'a pydict \<Rightarrow> 'a pydict" where
  "remove_id_key_dic dic =
     (let (v1, d1) = dict_pop dic ''_id'' PyNone;
          d2 = d1(''hgvs_id'' \<mapsto> v1);
          (v2, d3) = dict_pop d2 ''query'' PyNone
      in d3(''hgvs_id'' \<mapsto> v2))"

definition remove_id_key :: "'a pydict list \<Rightarrow> 'a pydict list" where
  "remove_id_key variant_data = map remove_id_key_dic variant_data"

text \<open>
  The remote service is outside the program: \<open>service n request\<close> is what the
  \<open>n\<close>-th call of \<open>mv.getvariants\<close> does with the request (the identifiers and the
  genome build): it raises an exception with a message, or returns a list of records.
  The state of the client keeps the requests issued, the lines logged and the seconds
  slept.
\<close>

datatype 'a outcome = Raises string | Returns "'a pydict list"

record client_state =
  requests :: "(string list \<times> string) list"
  logged :: "string list"
  slept :: nat

text \<open>
  \<^verbatim>\<open>
  try:
      getvariants = mv.getvariants(hgvs_ids_list, verbose=1, as_dataframe=False,
                                   fields=myvariant_fields, assembly=genome_build_version)
      variant_data = getvariants
  except Exception as error:
      logging.info('Error: ' + str(error) + 'while fetching from MyVariant, retrying...')
      time.sleep(5)
      variant_data = _get_myvariantinfo_annotations_dict(hgvs_ids_list, genome_build_version, verbose)

  variant_data = _remove_id_key(variant_data)
  return variant_data
  \<close>
  The retry is a recursive call made in the \<open>except\<close> block, so every failed call
  leaves one more frame on the stack, and the interpreter raises RecursionError when the
  stack reaches its limit (\<open>sys.getrecursionlimit()\<close>, 1000 unless changed). \<open>frames\<close>
  is the number of nested invocations of the function that the limit still allows: with
  none left the invocation raises RecursionError, and since the recursive call stands
  outside the \<open>try\<close> nothing catches that error on the way up. The list that comes
  back from the recursive call has been through \<open>_remove_id_key\<close> in the callee, and
  goes through it again in the caller. The arguments that are the same in every call
  (the list of fields, \<open>verbose=1\<close>) are not part of the request.
\<close>

fun get_myvariantinfo_annotations_dict ::
  "nat \<Rightarrow> (nat \<Rightarrow> string list \<times> string \<Rightarrow> 'a outcome) \<Rightarrow> string list \<Rightarrow> string \<Rightarrow>
   client_state \<Rightarrow> ('a error + 'a pydict list) \<times> client_state" where
  "get_myvariantinfo_annotations_dict 0 service hgvs_ids_list genome_build_version s =
     (Inl RecursionError, s)"
| "get_myvariantinfo_annotations_dict (Suc frames) service hgvs_ids_list genome_build_version s =
     (let request = (hgvs_ids_list, genome_build_version);
          s1 = s\<lparr>requests := requests s @ [request]\<rparr>
      in case service (length (requests s)) request of
           Returns getvariants \<Rightarrow> (Inr (remove_id_key getvariants), s1)
         | Raises error \<Rightarrow>
             (case get_myvariantinfo_annotations_dict frames service hgvs_ids_list
                     genome_build_version
                     (s1\<lparr>logged := logged s1 @
                                  [''Error: '' @ error @ ''while fetching from MyVariant, retrying...''],
                         slept := slept s1 + 5\<rparr>) of
                (Inl e, s2) \<Rightarrow> (Inl e, s2)
              | (Inr variant_data, s2) \<Rightarrow> (Inr (remove_id_key variant_data), s2)))"

section \<open>Merging and storing a chunk\<close>

text \<open>
  The merge updates a record in place and hands the same object back, so records live
  in a store: a reference is an address, and the heap gives the contents of the dict
  at every address.
\<close>

type_synonym ref = nat

type_synonym 'a heap = "ref \<Rightarrow> 'a pydict"

definition getitem :: "'a pydict \<Rightarrow> string \<Rightarrow> 'a error + 'a pyval" where
  "getitem d k = (case d k of None \<Rightarrow> Inl (KeyError k) | Some v \<Rightarrow> Inr v)"

text \<open>
  \<^verbatim>\<open>
  def _merge_annovar_and_myvariant_dicts(myvariant_dict, annovar_dict):
      if myvariant_dict['hgvs_id'] != annovar_dict['hgvs_id']:
          raise ValueError(
              "myvariant hgvs_id {0} not equal to annovar hgvs_id {1}".format(
                  myvariant_dict['hgvs_id'], annovar_dict['hgvs_id']))
      annovar_dict.update(myvariant_dict)
      return annovar_dict
  \<close>
  The result is the error or the reference returned, and the heap afterwards.
\<close>

definition merge_annovar_and_myvariant_dicts ::
  "'a heap \<Rightarrow> ref \<Rightarrow> ref \<Rightarrow> ('a error + ref) \<times> 'a heap" where
  "merge_annovar_and_myvariant_dicts h myvariant_dict annovar_dict =
     (case getitem (h myvariant_dict) ''hgvs_id'' of
        Inl e \<Rightarrow> (Inl e, h)
      | Inr mv_id \<Rightarrow>
          (case getitem (h annovar_dict) ''hgvs_id'' of
             Inl e \<Rightarrow> (Inl e, h)
           | Inr an_id \<Rightarrow>
               if mv_id \<noteq> an_id then
                 (Inl (ValueError [Txt ''myvariant hgvs_id '', Arg mv_id,
                                   Txt '' not equal to annovar hgvs_id '', Arg an_id]), h)
               else (Inr annovar_dict, h(annovar_dict := h annovar_dict ++ h myvariant_dict))))"

text \<open>
  \<^verbatim>\<open>
  for i in range(0, len(hgvs_ids_list)):
      variant_dicts_to_store.append(
          _merge_annovar_and_myvariant_dicts(myvariants_variants[i], annovar_variants[i]))
  \<close>
  Reading a list past its end raises IndexError; \<open>myvariants_variants[i]\<close> is read
  first.
\<close>

fun merge_loop ::
  "nat list \<Rightarrow> ref list \<Rightarrow> ref list \<Rightarrow> ref list \<Rightarrow> 'a heap \<Rightarrow> ('a error + ref list) \<times> 'a heap" where
  "merge_loop [] myvariants_variants annovar_variants variant_dicts_to_store h =
     (Inr variant_dicts_to_store, h)"
| "merge_loop (i # rest) myvariants_variants annovar_variants variant_dicts_to_store h =
     (if length myvariants_variants \<le> i then (Inl IndexError, h)
      else if length annovar_variants \<le> i then (Inl IndexError, h)
      else (case merge_annovar_and_myvariant_dicts h (myvariants_variants ! i) (annovar_variants ! i) of
              (Inl e, h') \<Rightarrow> (Inl e, h')
            | (Inr merged, h') \<Rightarrow>
                merge_loop rest myvariants_variants annovar_variants
                  (variant_dicts_to_store @ [merged]) h'))"

text \<open>
  Modelled from the spec: \<open>VAPr.queries.store_annotations_to_db\<close> is not among the
  sources. The spec's store sink inserts each document of the list as an independent
  record of the collection and never looks for duplicates: the collection is the list
  of the documents inserted so far. Failures of the store are left out.
\<close>

definition store_annotations_to_db :: "'a pydict list \<Rightarrow> 'a pydict list \<Rightarrow> 'a pydict list" where
  "store_annotations_to_db variant_dicts collection = collection @ variant_dicts"

text \<open>
  The end of \<open>_collect_chunk_annotations_and_store\<close> (lines 170 to 177), after the
  identifiers, the local records and the remote records of the chunk have been
  fetched. \<open>annovar_variants\<close> is \<open>None\<close> exactly when \<open>merge_variants\<close> is false.
  \<^verbatim>\<open>
  variant_dicts_to_store = myvariants_variants
  if merge_variants:
      variant_dicts_to_store = []
      for i in range(0, len(hgvs_ids_list)): ...
  return VAPr.queries.store_annotations_to_db(variant_dicts_to_store, db_name, collection_name)
  \<close>
  The result is the error raised, if any, the heap and the collection afterwards.
\<close>

definition collect_chunk_annotations_and_store ::
  "string list \<Rightarrow> ref list \<Rightarrow> ref list option \<Rightarrow> 'a heap \<Rightarrow> 'a pydict list \<Rightarrow>
   ('a error + unit) \<times> 'a heap \<times> 'a pydict list" where
  "collect_chunk_annotations_and_store hgvs_ids_list myvariants_variants annovar_variants h collection =
     (case annovar_variants of
        None \<Rightarrow> (Inr (), h, store_annotations_to_db (map h myvariants_variants) collection)
      | Some annovar \<Rightarrow>
          (case merge_loop [0..<length hgvs_ids_list] myvariants_variants annovar [] h of
             (Inl e, h') \<Rightarrow> (Inl e, h', collection)
           | (Inr variant_dicts_to_store, h') \<Rightarrow>
               (Inr (), h', store_annotations_to_db (map h' variant_dicts_to_store) collection)))"

section \<open>Reference definitions and example inputs\<close>

text \<open>
  What the claim on identifiers from a VCF chunk says of one record: the identifier is
  formatted from the chromosome, the position, the reference allele and the first
  alternate allele only, then normalised. It is compared below with the loop of
  \<open>_get_hgvs_ids_from_vcf\<close>.
\<close>

definition first_alt_hgvs_id ::
  "(string \<Rightarrow> nat \<Rightarrow> string \<Rightarrow> string \<Rightarrow> 'a error + string) \<Rightarrow> vcf_record \<Rightarrow> 'a error + string" where
  "first_alt_hgvs_id format_hgvs r =
     (case take 1 (ALT r) of
        [] \<Rightarrow> Inl IndexError
      | a # _ \<Rightarrow>
          (case format_hgvs (CHROM r) (POS r) (REF r) (py_str a) of
             Inl e \<Rightarrow> Inl e
           | Inr hgvs_id \<Rightarrow> complete_chromosome hgvs_id))"

text \<open>A formatter to run the examples with, and three records, two of them multi-allelic.\<close>

definition plain_format :: "string \<Rightarrow> nat \<Rightarrow> string \<Rightarrow> string \<Rightarrow> unit error + string" where
  "plain_format chrom pos ref alt = Inr (''chr'' @ chrom @ '':g.'' @ ref @ ''>'' @ alt)"

definition three_records :: "vcf_record list" where
  "three_records =
     [\<lparr>CHROM = ''1'', POS = 100, REF = ''A'', ALT = [Some ''G'', Some ''T'']\<rparr>,
      \<lparr>CHROM = ''M'', POS = 200, REF = ''C'', ALT = [Some ''T'']\<rparr>,
      \<lparr>CHROM = ''2'', POS = 300, REF = ''G'', ALT = [Some ''A'', Some ''C'', Some ''T'']\<rparr>]"

text \<open>
  Three services: one whose first two calls raise, one that always raises, one whose
  first call raises.
\<close>

definition flaky_service :: "nat \<Rightarrow> string list \<times> string \<Rightarrow> nat outcome" where
  "flaky_service n request =
     (if n < 2 then Raises ''timeout ''
      else Returns [[''_id'' \<mapsto> PyStr ''chr1:g.100A>G'', ''query'' \<mapsto> PyStr ''chr1:g.100A>G'']])"

definition down_service :: "nat \<Rightarrow> string list \<times> string \<Rightarrow> nat outcome" where
  "down_service n request = Raises ''timeout ''"

definition once_failing_service :: "nat \<Rightarrow> string list \<times> string \<Rightarrow> nat outcome" where
  "once_failing_service n request =
     (if n = 0 then Raises ''timeout''
      else Returns [[''_id'' \<mapsto> PyStr ''chr1:g.100A>G'', ''query'' \<mapsto> PyStr ''chr1:g.100A>G'']])"

text \<open>
  A heap with the remote records at 10, 11 and 12 and the local records at 20 and 21.
\<close>

definition example_heap :: "nat heap" where
  "example_heap =
     (\<lambda>_. Map.empty)
       (10 := [''hgvs_id'' \<mapsto> PyStr ''chr1:g.100A>G'', ''cadd'' \<mapsto> PyObj 7,
               ''note'' \<mapsto> PyStr ''remote''],
        20 := [''hgvs_id'' \<mapsto> PyStr ''chr1:g.100A>G'', ''chr'' \<mapsto> PyStr ''1'',
               ''note'' \<mapsto> PyStr ''local''],
        11 := [''hgvs_id'' \<mapsto> PyStr ''chr2:g.5C>T''],
        21 := [''hgvs_id'' \<mapsto> PyStr ''chr2:g.5C>T'', ''chr'' \<mapsto> PyStr ''2''],
        12 := [''hgvs_id'' \<mapsto> PyStr ''chr3:g.9G>A''])"

section \<open>Properties of the identifier normaliser\<close>

lemma str_in_char: "str_in [c] s \<longleftrightarrow> c \<in> set s"
  by (induction s) auto

lemma split_on_no: "c \<notin> set s \<Longrightarrow> split_on c s = [s]"
  by (induction s) auto

lemma split_on_one: "c \<notin> set a \<Longrightarrow> split_on c (a @ c # b) = a # split_on c b"
  by (induction a) auto

lemma split_on_pieces: "w \<in> set (split_on c s) \<Longrightarrow> c \<notin> set w"
  by (induction s arbitrary: w) (auto split: if_splits list.splits)

lemma starts_with_hd: "starts_with s (p # ps) \<Longrightarrow> p \<in> set s"
  by (cases s) auto

lemma str_in_hd: "str_in (p # ps) s \<Longrightarrow> p \<in> set s"
  by (induction s) (auto dest: starts_with_hd)

lemma complete_chromosome_no_M:
  "CHR ''M'' \<notin> set x \<Longrightarrow> complete_chromosome x = Inr x"
  by (simp add: complete_chromosome_def str_in_char)

lemma complete_chromosome_two_fields:
  assumes "CHR '':'' \<notin> set one" "CHR '':'' \<notin> set two" "str_in ''M'' (one @ '':'' @ two)"
  shows "complete_chromosome (one @ '':'' @ two) =
         Inr ((if \<not> str_in ''MT'' one then ''chrMT'' else one) @ '':'' @ two)"
  using assms by (simp add: complete_chromosome_def split_on_one split_on_no)

lemma complete_chromosome_fixed:
  assumes "complete_chromosome x = Inr y"
  shows "complete_chromosome y = Inr y"
proof (cases "str_in ''M'' x")
  case False
  with assms show ?thesis by (simp add: complete_chromosome_def)
next
  case True
  with assms obtain one two rest where sp: "split_on CHR '':'' x = one # two # rest"
    and y: "y = (if \<not> str_in ''MT'' one then ''chrMT'' else one) @ '':'' @ two"
    by (auto simp: complete_chromosome_def split: list.splits)
  define one' where "one' = (if \<not> str_in ''MT'' one then ''chrMT'' else one)"
  have "CHR '':'' \<notin> set one" "CHR '':'' \<notin> set two"
    using split_on_pieces[of _ "CHR '':''" x] sp by auto
  then have c1: "CHR '':'' \<notin> set one'" and c2: "CHR '':'' \<notin> set two"
    by (auto simp: one'_def)
  have mt: "str_in ''MT'' one'" by (simp add: one'_def)
  then have "CHR ''M'' \<in> set one'" by (rule str_in_hd)
  then have m: "str_in ''M'' (one' @ '':'' @ two)" by (simp add: str_in_char)
  have "complete_chromosome (one' @ '':'' @ two) = Inr (one' @ '':'' @ two)"
    using complete_chromosome_two_fields[OF c1 c2 m] mt by simp
  then show ?thesis by (simp add: y one'_def)
qed

text \<open>
  Claim C5, as amended. Normalisation is idempotent: an identifier it returns is
  returned unchanged when normalised again. An identifier without any \<open>M\<close> is returned
  unchanged. For an identifier \<open>chrom:rest\<close> with a single colon: when \<open>chrom\<close> has an
  \<open>M\<close> but not \<open>MT\<close>, the result is \<open>chrMT:rest\<close>; when \<open>chrom\<close> has \<open>MT\<close>, the
  identifier is returned unchanged.
\<close>

theorem complete_chromosome_normalises:
  "((complete_chromosome x :: 'a error + string) = Inr y \<longrightarrow>
      (complete_chromosome y :: 'a error + string) = Inr y)
   \<and> (CHR ''M'' \<notin> set x \<longrightarrow> (complete_chromosome x :: 'a error + string) = Inr x)
   \<and> (CHR '':'' \<notin> set chrom \<and> CHR '':'' \<notin> set rest \<and> CHR ''M'' \<in> set chrom
        \<and> \<not> str_in ''MT'' chrom \<longrightarrow>
      (complete_chromosome (chrom @ '':'' @ rest) :: 'a error + string)
        = Inr (''chrMT'' @ '':'' @ rest))
   \<and> (CHR '':'' \<notin> set chrom \<and> CHR '':'' \<notin> set rest \<and> str_in ''MT'' chrom \<longrightarrow>
      (complete_chromosome (chrom @ '':'' @ rest) :: 'a error + string)
        = Inr (chrom @ '':'' @ rest))"
proof (intro conjI impI)
  assume "(complete_chromosome x :: 'a error + string) = Inr y"
  then show "(complete_chromosome y :: 'a error + string) = Inr y"
    by (rule complete_chromosome_fixed)
next
  assume "CHR ''M'' \<notin> set x"
  then show "(complete_chromosome x :: 'a error + string) = Inr x"
    by (rule complete_chromosome_no_M)
next
  assume a: "CHR '':'' \<notin> set chrom \<and> CHR '':'' \<notin> set rest \<and> CHR ''M'' \<in> set chrom
        \<and> \<not> str_in ''MT'' chrom"
  then have "str_in ''M'' (chrom @ '':'' @ rest)" by (simp add: str_in_char)
  with a show "(complete_chromosome (chrom @ '':'' @ rest) :: 'a error + string)
        = Inr (''chrMT'' @ '':'' @ rest)"
    using complete_chromosome_two_fields[of chrom rest] by simp
next
  assume a: "CHR '':'' \<notin> set chrom \<and> CHR '':'' \<notin> set rest \<and> str_in ''MT'' chrom"
  then have "CHR ''M'' \<in> set chrom" using str_in_hd[of "CHR ''M''" "''T''" chrom] by simp
  then have "str_in ''M'' (chrom @ '':'' @ rest)" by (simp add: str_in_char)
  with a show "(complete_chromosome (chrom @ '':'' @ rest) :: 'a error + string)
        = Inr (chrom @ '':'' @ rest)"
    using complete_chromosome_two_fields[of chrom rest] by simp
qed

theorem complete_chromosome_normalises_witness:
  "(complete_chromosome ''chrM:g.100A>G'' :: unit error + string) = Inr ''chrMT:g.100A>G''
   \<and> (complete_chromosome ''chrMT:g.100A>G'' :: unit error + string) = Inr ''chrMT:g.100A>G''
   \<and> (complete_chromosome ''chr1:100:A>G'' :: unit error + string) = Inr ''chr1:100:A>G''"
proof -
  note a = complete_chromosome_normalises
             [where 'a = unit, of "''chr1:100:A>G''" "''chr1:100:A>G''" "''chrM''" "''g.100A>G''"]
  note b = complete_chromosome_normalises
             [where 'a = unit, of "''chrM:g.100A>G''" "''chrMT:g.100A>G''" "''chrMT''" "''g.100A>G''"]
  have 1: "(complete_chromosome ''chrM:g.100A>G'' :: unit error + string) = Inr ''chrMT:g.100A>G''"
    using a by simp
  have 2: "(complete_chromosome ''chrMT:g.100A>G'' :: unit error + string) = Inr ''chrMT:g.100A>G''"
    using b 1 by simp
  have 3: "(complete_chromosome ''chr1:100:A>G'' :: unit error + string) = Inr ''chr1:100:A>G''"
    using a by simp
  from 1 2 3 show ?thesis by simp
qed

text \<open>
  The identifier \<open>chrM:100:A>G\<close> has two colons: its third field is dropped, so the
  result is \<open>chrMT:100\<close> and not \<open>chrMT:100:A>G\<close>.
\<close>

theorem complete_chromosome_counterexample:
  "(complete_chromosome ''chrM:100:A>G'' :: unit error + string) = Inr ''chrMT:100''
   \<and> (complete_chromosome ''chrM:100:A>G'' :: unit error + string) \<noteq> Inr ''chrMT:100:A>G''"
  by (simp add: complete_chromosome_def)

section \<open>Properties of the true division\<close>

lemma bit_length_bounds:
  "0 < n \<Longrightarrow> 2 ^ (bit_length n - 1) \<le> n \<and> n < 2 ^ bit_length n"
proof (induction n rule: bit_length.induct)
  case (1 n)
  show ?case
  proof (cases "n div 2 = 0")
    case True
    with "1.prems" have "n = 1" by (simp add: div_eq_0_iff)
    moreover have "bit_length (Suc 0) = Suc 0"
      by (simp add: bit_length.simps[of "Suc 0"] bit_length.simps[of 0])
    ultimately show ?thesis by simp
  next
    case False
    then have pos: "0 < n div 2" by simp
    from "1.IH" "1.prems" pos have ih: "2 ^ (bit_length (n div 2) - 1) \<le> n div 2"
      "n div 2 < 2 ^ bit_length (n div 2)" by simp_all
    define l where "l = bit_length (n div 2)"
    have l: "bit_length n = Suc l" using "1.prems" by (simp add: bit_length.simps[of n] l_def)
    have lpos: "0 < l" using pos by (simp add: l_def bit_length.simps[of "n div 2"])
    then obtain l' where l': "l = Suc l'" by (cases l) auto
    have a: "2 * 2 ^ l' \<le> n" using ih(1) unfolding l_def[symmetric] l' by simp
    have b: "n < 2 * 2 ^ l" using ih(2) unfolding l_def[symmetric] by arith
    show ?thesis unfolding l using a b by (simp add: l')
  qed
qed

lemma bit_length_pos: "0 < n \<Longrightarrow> 0 < bit_length n"
  by (simp add: bit_length.simps[of n])

lemma bit_length_le: "n < 2 ^ k \<Longrightarrow> bit_length n \<le> k"
proof (cases "0 < n")
  case False
  then show ?thesis by (simp add: bit_length.simps[of 0])
next
  case True
  assume "n < 2 ^ k"
  with bit_length_bounds[OF True] have "(2::nat) ^ (bit_length n - 1) < 2 ^ k" by linarith
  then have "bit_length n - 1 < k" by simp
  then show ?thesis by simp
qed

lemma bit_length_eq: "2 ^ k \<le> n \<Longrightarrow> n < 2 ^ Suc k \<Longrightarrow> bit_length n = Suc k"
proof -
  assume lo: "2 ^ k \<le> n" and hi: "n < 2 ^ Suc k"
  then have pos: "0 < n" by (metis less_le_trans zero_less_numeral zero_less_power)
  have "bit_length n \<le> Suc k" using hi by (rule bit_length_le)
  moreover have "(2::nat) ^ k < 2 ^ bit_length n" using bit_length_bounds[OF pos] lo by linarith
  then have "k < bit_length n" by simp
  ultimately show ?thesis by simp
qed

lemma round_half_even_bounds:
  "n div d \<le> round_half_even n d \<and> round_half_even n d \<le> n div d + 1"
  by (simp add: round_half_even_def Let_def)

lemma round_scaled:
  assumes "0 < b" "b < 2 ^ s"
  shows "(a div b) * 2 ^ s \<le> round_half_even (a * 2 ^ s) b"
    and "round_half_even (a * 2 ^ s) b < (a div b + 1) * 2 ^ s"
proof -
  define q where "q = a div b"
  define r where "r = a mod b"
  define P :: nat where "P = 2 ^ s"
  define N where "N = a * P"
  have a: "a = q * b + r" by (simp add: q_def r_def)
  have r: "r < b" using assms(1) by (simp add: r_def)
  have bP: "b < P" using assms(2) by (simp add: P_def)
  have "(q * P) * b \<le> N" unfolding N_def a by (simp add: algebra_simps)
  then have lo: "q * P \<le> N div b"
    using assms(1) by (simp add: less_eq_div_iff_mult_less_eq)
  have "a + 1 \<le> (q + 1) * b" unfolding a using r by (simp add: algebra_simps)
  then have "(a + 1) * P \<le> ((q + 1) * b) * P" by (rule mult_le_mono1)
  then have "N + P \<le> ((q + 1) * P) * b" unfolding N_def by (simp add: algebra_simps)
  with bP have "N + b < ((q + 1) * P) * b" by linarith
  moreover have "((q + 1) * P) * b = ((q + 1) * P - 1) * b + b"
  proof -
    have "0 < P" by (simp add: P_def)
    then have "0 < (q + 1) * P" by simp
    then have "(q + 1) * P = ((q + 1) * P - 1) + 1" by simp
    then have "((q + 1) * P) * b = (((q + 1) * P - 1) + 1) * b" by simp
    then show ?thesis by (simp only: add_mult_distrib mult_1)
  qed
  ultimately have "N < ((q + 1) * P - 1) * b" by linarith
  then have hi: "N div b < (q + 1) * P - 1"
    using assms(1) by (simp add: div_less_iff_less_mult)
  have m: "N div b \<le> round_half_even N b" "round_half_even N b \<le> N div b + 1"
    using round_half_even_bounds[of N b] by simp_all
  show "(a div b) * 2 ^ s \<le> round_half_even (a * 2 ^ s) b"
    using lo m(1) unfolding q_def N_def P_def by linarith
  show "round_half_even (a * 2 ^ s) b < (a div b + 1) * 2 ^ s"
    using hi m(2) unfolding q_def N_def P_def by linarith
qed

lemma quotient_exponent_range:
  assumes "0 < a" "0 < b" "a < 2 ^ 52" "b < 2 ^ 52"
  shows "- 52 \<le> quotient_exponent a b \<and> quotient_exponent a b \<le> 51
         \<and> b < 2 ^ nat (52 - quotient_exponent a b)"
proof -
  define la where "la = bit_length a"
  define lb where "lb = bit_length b"
  define e where "e = quotient_exponent a b"
  have la: "0 < la" "la \<le> 52" "2 ^ (la - 1) \<le> a"
    using assms(1,3) bit_length_pos[of a] bit_length_le[of a 52] bit_length_bounds[of a]
    by (simp_all add: la_def)
  have lb: "0 < lb" "lb \<le> 52" "b < 2 ^ lb"
    using assms(2,4) bit_length_pos[of b] bit_length_le[of b 52] bit_length_bounds[of b]
    by (simp_all add: lb_def)
  have e_cases: "(e = int la - int lb \<and> b * 2 ^ nat (int la - int lb) \<le> a * 2 ^ nat (- (int la - int lb)))
       \<or> e = int la - int lb - 1"
    by (simp add: e_def quotient_exponent_def la_def lb_def Let_def)
  have lo: "- 52 \<le> e" and hi: "e \<le> 51" using e_cases la(1,2) lb(1,2) by auto
  have small: "b < 2 ^ nat (52 - e)"
  proof (cases "e \<le> 0")
    case True
    then have "52 \<le> nat (52 - e)" by simp
    then have "(2::nat) ^ 52 \<le> 2 ^ nat (52 - e)" by (rule power_increasing) simp
    with assms(4) show ?thesis by linarith
  next
    case False
    then have epos: "0 < e" by simp
    have scaled: "b * 2 ^ nat e \<le> a"
    proof (cases "e = int la - int lb")
      case True
      with e_cases epos have "b * 2 ^ nat (int la - int lb) \<le> a * 2 ^ nat (- (int la - int lb))"
        by auto
      moreover have "nat (- (int la - int lb)) = 0" using True epos by simp
      ultimately show ?thesis using True by simp
    next
      case False
      with e_cases have e1: "e = int la - int lb - 1" by simp
      with epos have n: "nat e = la - lb - 1" and gt: "lb + 1 < la" by simp_all
      have "b * 2 ^ (la - lb - 1) \<le> 2 ^ lb * 2 ^ (la - lb - 1)"
        using lb(3) by (simp add: mult_le_mono1)
      also have "\<dots> = 2 ^ (lb + (la - lb - 1))" by (simp add: power_add)
      also have "lb + (la - lb - 1) = la - 1" using gt by simp
      finally show ?thesis using la(3) unfolding n by linarith
    qed
    have split: "(2::nat) ^ 52 = 2 ^ nat e * 2 ^ nat (52 - e)"
    proof -
      have "nat e + nat (52 - e) = 52" using epos hi by simp
      then show ?thesis by (simp only: power_add[symmetric])
    qed
    from scaled assms(3) have "b * 2 ^ nat e < 2 ^ nat e * 2 ^ nat (52 - e)"
      unfolding split[symmetric] by linarith
    then have "2 ^ nat e * b < 2 ^ nat e * 2 ^ nat (52 - e)" by (simp add: mult.commute)
    then show ?thesis by simp
  qed
  from lo hi small show ?thesis unfolding e_def by simp
qed

lemma true_divide_small:
  assumes "0 < b" "a < 2 ^ 52" "b < 2 ^ 52"
  shows "\<exists>x. (true_divide a b :: 'a error + real) = Inr x \<and> py_int x = int (a div b)"
proof (cases "a = 0")
  case True
  with assms(1) show ?thesis by (simp add: true_divide_def py_int_def)
next
  case False
  then have apos: "0 < a" by simp
  define e where "e = quotient_exponent a b"
  define s where "s = nat (52 - e)"
  from quotient_exponent_range[OF apos assms] have lo: "- 52 \<le> e" and hi: "e \<le> 51"
    and small: "b < 2 ^ s" by (simp_all add: e_def s_def)
  have mx: "max (e - 52) (- 1074) = e - 52" using lo by simp
  have n1: "nat (- (e - 52)) = s" by (simp add: s_def)
  have n2: "nat (e - 52) = 0" using hi by simp
  define m where "m = round_half_even (a * 2 ^ s) b"
  have mlo: "(a div b) * 2 ^ s \<le> m" and mhi: "m < (a div b + 1) * 2 ^ s"
    using round_scaled[OF assms(1) small, of a] by (simp_all add: m_def)
  have fl: "m div 2 ^ s = a div b"
    by (rule div_nat_eqI) (use mlo mhi in \<open>simp_all add: mult.commute\<close>)
  define x where "x = real m / 2 ^ s"
  have floor: "\<lfloor>x\<rfloor> = int (a div b)"
  proof -
    have "x = real m / real (2 ^ s)" by (simp add: x_def)
    then have "\<lfloor>x\<rfloor> = int (m div 2 ^ s)" by (simp only: floor_divide_of_nat_eq)
    then show ?thesis by (simp add: fl)
  qed
  have x0: "0 \<le> x" by (simp add: x_def)
  have "a div b \<le> a" by simp
  with assms(2) have "a div b + 1 \<le> 2 ^ 52" by linarith
  then have "(a div b + 1) * 2 ^ s \<le> 2 ^ 52 * 2 ^ s" by (rule mult_le_mono1)
  with mhi have "m < 2 ^ 52 * 2 ^ s" by linarith
  then have "real m < real (2 ^ 52 * 2 ^ s)" by (simp only: of_nat_less_iff)
  then have "x < 2 ^ 52" by (simp add: x_def field_simps)
  also have "(2::real) ^ 52 \<le> 2 ^ 1024" by (rule power_increasing) simp_all
  finally have nov: "\<not> 2 ^ 1024 \<le> x" by simp
  have xm: "real (round_half_even (a * 2 ^ s) (b * 2 ^ 0)) * 2 ^ 0 / 2 ^ s = x"
    by (simp add: x_def m_def)
  have "(true_divide a b :: 'a error + real) = Inr x"
    unfolding true_divide_def Let_def e_def[symmetric] mx n1 n2 xm
    using False assms(1) nov by simp
  with floor x0 show ?thesis by (simp add: py_int_def)
qed

lemma chunk_indices_small:
  assumes "0 < b" "a < 2 ^ 52" "b < 2 ^ 52"
  shows "\<exists>x. (true_divide a b :: 'a error + real) = Inr x \<and> chunk_indices x = [0..<a div b + 1]"
proof -
  from true_divide_small[OF assms, where 'a = 'a] obtain x where
    x: "(true_divide a b :: 'a error + real) = Inr x" "py_int x = int (a div b)" by blast
  have "nat (int (a div b) + 1) = a div b + 1" by simp
  then have "chunk_indices x = [0..<a div b + 1]"
    by (simp add: chunk_indices_def x(2) Let_def)
  with x(1) show ?thesis by blast
qed

lemma true_divide_large:
  "(true_divide (2 ^ 61 - 1) (2 ^ 60) :: 'a error + real) = Inr 2"
proof -
  have la: "bit_length (2 ^ 61 - 1) = Suc 60" by (rule bit_length_eq) simp_all
  have lb: "bit_length (2 ^ 60) = Suc 60" by (rule bit_length_eq) simp_all
  have e: "quotient_exponent (2 ^ 61 - 1) (2 ^ 60) = 0"
    unfolding quotient_exponent_def la lb by simp
  have m: "round_half_even ((2 ^ 61 - 1) * 2 ^ nat (- (- 52))) (2 ^ 60 * 2 ^ nat (- 52)) = 2 ^ 53"
    by (simp add: round_half_even_def Let_def)
  have mx: "max (0 - 52) (- 1074) = (- 52 :: int)" by simp
  show ?thesis
    unfolding true_divide_def e mx Let_def m by simp
qed

section \<open>Properties of the job partitioner\<close>

lemma jobs_loop_eq:
  "jobs_loop is sh acc = acc @ map (\<lambda>i. sh[CHUNK_INDEX_INDEX := IntParam (int i)]) is"
  by (induction "is" arbitrary: sh acc) (simp_all add: Let_def)
lemma ceil_div:
  assumes "0 < cs"
  shows "\<lceil>real n / real cs\<rceil> = (if cs dvd n then int (n div cs) else int (n div cs) + 1)"
proof -
  have "\<lceil>real n / real cs\<rceil> = \<lceil>real_of_int (int n) / real_of_int (int cs)\<rceil>" by simp
  also have "\<dots> = - (- int n div int cs)" by (rule ceiling_divide_eq_div)
  also have "\<dots> = (if int n mod int cs = 0 then int n div int cs else int n div int cs + 1)"
    using assms by (simp add: zdiv_zminus1_eq_if)
  also have "\<dots> = (if cs dvd n then int (n div cs) else int (n div cs) + 1)"
    by (simp add: mod_eq_0_iff_dvd flip: of_nat_mod of_nat_div)
  finally show ?thesis .
qed
lemmas idx_defs = SAMPLE_LIST_INDEX_def
    CHUNK_INDEX_INDEX_def FILE_PATH_INDEX_def CHUNK_SIZE_INDEX_def DB_NAME_INDEX_def COLLECTION_NAME_INDEX_def
    GENOME_BUILD_VERSION_INDEX_def VERBOSE_LEVEL_INDEX_def
lemma shared_params_length: "7 \<le> length (shared_params fp cs db coll gb names v)"
  by (simp add: shared_params_def get_num_possible_indices_def Let_def idx_defs split: option.splits)
lemma shared_params_chunk_size: "shared_params fp cs db coll gb names v ! CHUNK_SIZE_INDEX = IntParam (int cs)"
  by (simp add: shared_params_def get_num_possible_indices_def Let_def idx_defs split: option.splits)
lemma job_of_shared:
  "job_int ((shared_params fp cs db coll gb names v)[CHUNK_INDEX_INDEX := IntParam (int i)]) CHUNK_INDEX_INDEX = int i"
  "job_int ((shared_params fp cs db coll gb names v)[CHUNK_INDEX_INDEX := IntParam (int i)]) CHUNK_SIZE_INDEX = int cs"
proof -
  let ?sh = "shared_params fp cs db coll gb names v"
  have len: "0 < length ?sh" using shared_params_length[of fp cs db coll gb names v] by linarith
  show "job_int (?sh[CHUNK_INDEX_INDEX := IntParam (int i)]) CHUNK_INDEX_INDEX = int i"
    using len by (simp add: job_int_def CHUNK_INDEX_INDEX_def)
  have "(?sh[CHUNK_INDEX_INDEX := IntParam (int i)]) ! CHUNK_SIZE_INDEX = ?sh ! CHUNK_SIZE_INDEX"
    by (simp add: CHUNK_INDEX_INDEX_def CHUNK_SIZE_INDEX_def)
  then show "job_int (?sh[CHUNK_INDEX_INDEX := IntParam (int i)]) CHUNK_SIZE_INDEX = int cs"
    by (simp add: job_int_def shared_params_chunk_size)
qed
lemma job_line_range_shared:
  "job_line_range ((shared_params fp cs db coll gb names v)[CHUNK_INDEX_INDEX := IntParam (int i)])
     = (int i * int cs, (int i + 1) * int cs)"
  by (simp add: job_line_range_def job_of_shared Let_def)
lemma union_chunks: "(\<Union>i<m. {int i * c ..< (int i + 1) * c}) = {0 ..< int m * c}" if "0 \<le> c"
proof (induction m)
  case 0 show ?case by simp
next
  case (Suc m)
  define a where "a = int m * c"
  have a: "0 \<le> a" using that by (simp add: a_def)
  have "{0 ..< a + c} = {0 ..< a} \<union> {a ..< a + c}"
    using a that by auto
  moreover have "int (Suc m) * c = a + c" "(int m + 1) * c = a + c"
    by (simp_all add: a_def algebra_simps)
  ultimately have "{0 ..< int (Suc m) * c} = {0 ..< int m * c} \<union> {int m * c ..< (int m + 1) * c}"
    by (simp add: a_def)
  then show ?case using Suc by (simp add: lessThan_Suc Un_commute)
qed
lemma chunks_disjoint: "i < j \<Longrightarrow> {int i * c ..< (int i + 1) * c} \<inter> {int j * c ..< (int j + 1) * c} = {}" if "0 \<le> (c::int)"
proof -
  assume "i < j"
  then have "int i + 1 \<le> int j" by simp
  then have "(int i + 1) * c \<le> int j * c" using that by (rule mult_right_mono)
  then show ?thesis by auto
qed
lemma cover: "0 < cs \<Longrightarrow> int n < int cs * int (n div cs + 1)"
proof -
  assume "0 < cs"
  define q r where "q = n div cs" and "r = n mod cs"
  have "r < cs" using \<open>0 < cs\<close> by (simp add: r_def)
  moreover have "n = cs * q + r" by (simp add: q_def r_def)
  ultimately have "n < cs * q + cs" by simp
  then have "n < cs * (n div cs) + cs" by (simp add: q_def)
  then have "n < cs * (n div cs + 1)" by (simp add: algebra_simps)
  then have "int n < int (cs * (n div cs + 1))" by (simp only: of_nat_less_iff)
  then show ?thesis by (simp only: of_nat_mult)
qed

lemma make_jobs_eq:
  assumes "0 < cs" "n < 2 ^ 52" "cs < 2 ^ 52"
  shows "(make_jobs_params_tuples_list fp n cs db coll gb names v :: 'a error + param list list) =
     Inr (map (\<lambda>i. (shared_params fp cs db coll gb names v)[CHUNK_INDEX_INDEX := IntParam (int i)])
            [0..<n div cs + 1])"
proof -
  from chunk_indices_small[OF assms, where 'a = 'a] obtain x where
    "(true_divide n cs :: 'a error + real) = Inr x" "chunk_indices x = [0..<n div cs + 1]"
    by blast
  then show ?thesis
    by (simp add: make_jobs_params_tuples_list_def jobs_loop_eq Let_def)
qed

lemma project_make_jobs_eq:
  assumes "0 < cs" "length lines < 2 ^ 52" "cs < 2 ^ 52" "fs fp = Some lines"
  shows "(project_make_jobs_params_tuples_list fs fp cs db coll gb names v
            :: 'a error + param list list) =
     Inr (map (\<lambda>i. (shared_params fp cs db coll gb names v)[CHUNK_INDEX_INDEX := IntParam (int i)])
            [0..<length lines div cs + 1])"
proof -
  from chunk_indices_small[OF assms(1,2,3), where 'a = 'a] obtain x where
    "(true_divide (length lines) cs :: 'a error + real) = Inr x"
    "chunk_indices x = [0..<length lines div cs + 1]"
    by blast
  then show ?thesis
    using assms(4)
    by (simp add: project_make_jobs_params_tuples_list_def get_num_lines_in_file_def jobs_loop_eq
        Let_def)
qed

lemma make_jobs_large:
  "(make_jobs_params_tuples_list fp (2 ^ 61 - 1) (2 ^ 60) db coll gb names v
      :: 'a error + param list list) =
     Inr (map (\<lambda>i. (shared_params fp (2 ^ 60) db coll gb names v)[CHUNK_INDEX_INDEX := IntParam (int i)])
            [0..<3])"
proof -
  have "chunk_indices 2 = [0..<3]" by (simp add: chunk_indices_def py_int_def Let_def)
  then show ?thesis
    unfolding make_jobs_params_tuples_list_def Let_def
      true_divide_large[where 'a = 'a] jobs_loop_eq
    by simp
qed

text \<open>
  Claim C3, as amended. For every line count and every positive chunk size, both below
  \<open>2 ^ 52\<close>, both partitioners return
  \<open>floor(total_lines / chunk_size) + 1\<close> jobs; job \<open>i\<close> carries chunk index \<open>i\<close> and
  the line range \<open>[i * chunk_size, (i + 1) * chunk_size)\<close>; the ranges start at 0, each
  ends where the next begins, no two overlap, and together they are
  \<open>[0, chunk_size * numJobs)\<close>, which contains \<open>[0, total_lines)\<close>.
\<close>

theorem partition_coverage:
  assumes "0 < chunk_size" "total_lines < 2 ^ 52" "chunk_size < 2 ^ 52"
  shows "\<exists>jobs.
       (make_jobs_params_tuples_list file_path total_lines chunk_size db_name collection_name
         genome_build_version sample_names_list verbose_level :: 'a error + param list list)
         = Inr jobs
     \<and> (\<forall>fs lines. fs file_path = Some lines \<and> length lines = total_lines \<longrightarrow>
          (project_make_jobs_params_tuples_list fs file_path chunk_size db_name collection_name
            genome_build_version sample_names_list verbose_level :: 'a error + param list list)
            = Inr jobs)
     \<and> length jobs = total_lines div chunk_size + 1
     \<and> (\<forall>i<length jobs. job_int (jobs ! i) CHUNK_INDEX_INDEX = int i
            \<and> job_line_range (jobs ! i) = (int i * int chunk_size, (int i + 1) * int chunk_size))
     \<and> fst (job_line_range (jobs ! 0)) = 0
     \<and> (\<forall>i. Suc i < length jobs \<longrightarrow>
            snd (job_line_range (jobs ! i)) = fst (job_line_range (jobs ! Suc i)))
     \<and> (\<forall>i j. i < j \<and> j < length jobs \<longrightarrow> job_lines (jobs ! i) \<inter> job_lines (jobs ! j) = {})
     \<and> (\<Union>i<length jobs. job_lines (jobs ! i)) = {0 ..< int chunk_size * int (length jobs)}
     \<and> {0 ..< int total_lines} \<subseteq> {0 ..< int chunk_size * int (length jobs)}"
proof -
  let ?sh = "shared_params file_path chunk_size db_name collection_name genome_build_version
               sample_names_list verbose_level"
  let ?m = "total_lines div chunk_size + 1"
  let ?c = "int chunk_size"
  define jobs where "jobs = map (\<lambda>i. ?sh[CHUNK_INDEX_INDEX := IntParam (int i)]) [0..<?m]"
  have len: "length jobs = ?m" by (simp add: jobs_def)
  have nth: "jobs ! i = ?sh[CHUNK_INDEX_INDEX := IntParam (int i)]" if "i < ?m" for i
    using that unfolding jobs_def by (simp del: upt_Suc)
  have rng: "job_line_range (jobs ! i) = (int i * ?c, (int i + 1) * ?c)" if "i < ?m" for i
    using nth[OF that] by (simp add: job_line_range_shared)
  have lines: "job_lines (jobs ! i) = {int i * ?c ..< (int i + 1) * ?c}" if "i < ?m" for i
    using rng[OF that] by (simp add: job_lines_def)
  have idx: "job_int (jobs ! i) CHUNK_INDEX_INDEX = int i" if "i < ?m" for i
    using nth[OF that] by (simp add: job_of_shared)
  have c0: "0 \<le> ?c" by simp
  have 1: "(make_jobs_params_tuples_list file_path total_lines chunk_size db_name collection_name
         genome_build_version sample_names_list verbose_level :: 'a error + param list list)
         = Inr jobs"
    using assms unfolding jobs_def by (rule make_jobs_eq)
  have 2: "\<forall>fs lines. fs file_path = Some lines \<and> length lines = total_lines \<longrightarrow>
          (project_make_jobs_params_tuples_list fs file_path chunk_size db_name collection_name
            genome_build_version sample_names_list verbose_level :: 'a error + param list list)
            = Inr jobs"
    using assms unfolding jobs_def by (auto simp: project_make_jobs_eq)
  have 4: "\<forall>i<length jobs. job_int (jobs ! i) CHUNK_INDEX_INDEX = int i
            \<and> job_line_range (jobs ! i) = (int i * int chunk_size, (int i + 1) * int chunk_size)"
    using idx rng len by simp
  have 5: "fst (job_line_range (jobs ! 0)) = 0" using rng[of 0] by simp
  have 6: "\<forall>i. Suc i < length jobs \<longrightarrow>
            snd (job_line_range (jobs ! i)) = fst (job_line_range (jobs ! Suc i))"
  proof (intro allI impI)
    fix i assume "Suc i < length jobs"
    then have "i < ?m" "Suc i < ?m" using len by simp_all
    then show "snd (job_line_range (jobs ! i)) = fst (job_line_range (jobs ! Suc i))"
      using rng[of i] rng[of "Suc i"] by simp
  qed
  have 7: "\<forall>i j. i < j \<and> j < length jobs \<longrightarrow> job_lines (jobs ! i) \<inter> job_lines (jobs ! j) = {}"
  proof (intro allI impI)
    fix i j assume ij: "i < j \<and> j < length jobs"
    then have "i < ?m" "j < ?m" using len by simp_all
    then show "job_lines (jobs ! i) \<inter> job_lines (jobs ! j) = {}"
      using lines[of i] lines[of j] chunks_disjoint[OF c0, of i j] ij by simp
  qed
  have "(\<Union>i<length jobs. job_lines (jobs ! i)) = (\<Union>i<?m. {int i * ?c ..< (int i + 1) * ?c})"
    using lines len by simp
  also have "\<dots> = {0 ..< int ?m * ?c}" using c0 by (rule union_chunks)
  finally have 8: "(\<Union>i<length jobs. job_lines (jobs ! i)) = {0 ..< ?c * int (length jobs)}"
    by (simp add: len mult.commute)
  have "int total_lines < ?c * int ?m" using assms(1) by (rule cover)
  then have 9: "{0 ..< int total_lines} \<subseteq> {0 ..< ?c * int (length jobs)}"
    by (simp add: len)
  from 1 2 len 4 5 6 7 8 9 show ?thesis by blast
qed

theorem partition_coverage_witness:
  "(0::nat) < 2 \<and> (5::nat) < 2 ^ 52 \<and> (2::nat) < 2 ^ 52 \<and>
   (\<exists>jobs. make_jobs_params_tuples_list ''in.vcf'' 5 2 ''db'' ''coll'' ''hg19'' None 1
              = (Inr jobs :: unit error + param list list)
      \<and> length jobs = 3
      \<and> job_line_range (jobs ! 0) = (0, 2)
      \<and> job_line_range (jobs ! 1) = (2, 4)
      \<and> job_line_range (jobs ! 2) = (4, 6))"
proof -
  have h: "(0::nat) < 2" "(5::nat) < 2 ^ 52" "(2::nat) < 2 ^ 52" by simp_all
  from partition_coverage[where 'a = unit and chunk_size = 2 and total_lines = 5
         and file_path = "''in.vcf''" and db_name = "''db''" and collection_name = "''coll''"
         and genome_build_version = "''hg19''" and sample_names_list = None
         and verbose_level = 1, OF h]
  show ?thesis
  proof (elim exE conjE)
    fix jobs
    assume j: "make_jobs_params_tuples_list ''in.vcf'' 5 2 ''db'' ''coll'' ''hg19'' None 1
          = (Inr jobs :: unit error + param list list)"
      and l: "length jobs = 5 div 2 + 1"
      and r: "\<forall>i<length jobs. job_int (jobs ! i) CHUNK_INDEX_INDEX = int i
            \<and> job_line_range (jobs ! i) = (int i * int 2, (int i + 1) * int 2)"
    have l3: "length jobs = 3" using l by simp
    have "job_line_range (jobs ! 0) = (0, 2)" "job_line_range (jobs ! 1) = (2, 4)"
       "job_line_range (jobs ! 2) = (4, 6)"
      using r l3 by simp_all
    with h j l3 show ?thesis by simp
  qed
qed

text \<open>
  With \<open>2 ^ 61 - 1\<close> lines and chunks of \<open>2 ^ 60\<close> lines the quotient is
  \<open>2 - 2 ^ - 60\<close>, the nearest double is 2, and the partitioner returns 3 jobs where
  \<open>floor(total_lines / chunk_size) + 1\<close> is 2.
\<close>

theorem partition_coverage_counterexample:
  "(\<exists>jobs. make_jobs_params_tuples_list ''in.vcf'' (2 ^ 61 - 1) (2 ^ 60) ''db'' ''coll'' ''hg19''
              None 1 = (Inr jobs :: unit error + param list list)
      \<and> length jobs = 3)
   \<and> (2 ^ 61 - 1) div 2 ^ 60 + 1 = (2::nat)"
proof
  show "\<exists>jobs. make_jobs_params_tuples_list ''in.vcf'' (2 ^ 61 - 1) (2 ^ 60) ''db'' ''coll'' ''hg19''
              None 1 = (Inr jobs :: unit error + param list list)
      \<and> length jobs = 3"
    unfolding make_jobs_large by simp
  show "(2 ^ 61 - 1) div 2 ^ 60 + 1 = (2::nat)" by simp
qed

text \<open>
  Claim C4, as amended. For every line count and every positive chunk size, both below
  \<open>2 ^ 52\<close>, both partitioners return \<open>floor(total_lines / chunk_size) + 1\<close> jobs with the chunk indices
  \<open>0..N-1\<close> in order. That is \<open>ceil(total_lines / chunk_size)\<close> when the chunk size does
  not divide the line count, and one more than it when it does (the last job is then
  empty).
\<close>

theorem partition_job_count:
  assumes "0 < chunk_size" "total_lines < 2 ^ 52" "chunk_size < 2 ^ 52"
  shows "\<exists>jobs.
       (make_jobs_params_tuples_list file_path total_lines chunk_size db_name collection_name
         genome_build_version sample_names_list verbose_level :: 'a error + param list list)
         = Inr jobs
     \<and> (\<forall>fs lines. fs file_path = Some lines \<and> length lines = total_lines \<longrightarrow>
          (project_make_jobs_params_tuples_list fs file_path chunk_size db_name collection_name
            genome_build_version sample_names_list verbose_level :: 'a error + param list list)
            = Inr jobs)
     \<and> int (length jobs) = \<lfloor>real total_lines / real chunk_size\<rfloor> + 1
     \<and> int (length jobs) =
         (if chunk_size dvd total_lines then \<lceil>real total_lines / real chunk_size\<rceil> + 1
          else \<lceil>real total_lines / real chunk_size\<rceil>)
     \<and> map (\<lambda>job. job_int job CHUNK_INDEX_INDEX) jobs = map int [0..<length jobs]"
proof -
  let ?sh = "shared_params file_path chunk_size db_name collection_name genome_build_version
               sample_names_list verbose_level"
  let ?m = "total_lines div chunk_size + 1"
  define jobs where "jobs = map (\<lambda>i. ?sh[CHUNK_INDEX_INDEX := IntParam (int i)]) [0..<?m]"
  have len: "length jobs = ?m" by (simp add: jobs_def)
  have 1: "(make_jobs_params_tuples_list file_path total_lines chunk_size db_name collection_name
         genome_build_version sample_names_list verbose_level :: 'a error + param list list)
         = Inr jobs"
    using assms unfolding jobs_def by (rule make_jobs_eq)
  have 2: "\<forall>fs lines. fs file_path = Some lines \<and> length lines = total_lines \<longrightarrow>
          (project_make_jobs_params_tuples_list fs file_path chunk_size db_name collection_name
            genome_build_version sample_names_list verbose_level :: 'a error + param list list)
            = Inr jobs"
    using assms unfolding jobs_def by (auto simp: project_make_jobs_eq)
  have 3: "int (length jobs) = \<lfloor>real total_lines / real chunk_size\<rfloor> + 1"
    by (simp add: len floor_divide_of_nat_eq)
  have 4: "int (length jobs) =
         (if chunk_size dvd total_lines then \<lceil>real total_lines / real chunk_size\<rceil> + 1
          else \<lceil>real total_lines / real chunk_size\<rceil>)"
    using ceil_div[OF assms(1), of total_lines] by (simp add: len)
  have 5: "map (\<lambda>job. job_int job CHUNK_INDEX_INDEX) jobs = map int [0..<length jobs]"
    unfolding len unfolding jobs_def by (simp add: job_of_shared comp_def del: upt_Suc)
  from 1 2 3 4 5 show ?thesis by blast
qed

theorem partition_job_count_witness:
  "(0::nat) < 3 \<and> (5::nat) < 2 ^ 52 \<and> (3::nat) < 2 ^ 52 \<and>
   (\<exists>jobs. make_jobs_params_tuples_list ''in.vcf'' 5 3 ''db'' ''coll'' ''hg19'' None 1
              = (Inr jobs :: unit error + param list list)
      \<and> int (length jobs) = 2
      \<and> map (\<lambda>job. job_int job CHUNK_INDEX_INDEX) jobs = [0, 1])"
proof -
  have h: "(0::nat) < 3" "(5::nat) < 2 ^ 52" "(3::nat) < 2 ^ 52" by simp_all
  from partition_job_count[where 'a = unit and chunk_size = 3 and total_lines = 5
         and file_path = "''in.vcf''" and db_name = "''db''" and collection_name = "''coll''"
         and genome_build_version = "''hg19''" and sample_names_list = None
         and verbose_level = 1, OF h]
  show ?thesis
  proof (elim exE conjE)
    fix jobs
    assume j: "make_jobs_params_tuples_list ''in.vcf'' 5 3 ''db'' ''coll'' ''hg19'' None 1
          = (Inr jobs :: unit error + param list list)"
      and l: "int (length jobs) = \<lfloor>real 5 / real 3\<rfloor> + 1"
      and r: "map (\<lambda>job. job_int job CHUNK_INDEX_INDEX) jobs = map int [0..<length jobs]"
    have l2: "length jobs = 2" using l by simp
    have "map (\<lambda>job. job_int job CHUNK_INDEX_INDEX) jobs = [0, 1]"
      using r by (simp add: l2 upt_rec)
    with h j l2 show ?thesis by simp
  qed
qed

text \<open>
  With 4 lines and chunks of 2 lines the partitioner returns 3 jobs, not
  \<open>ceil(4 / 2) = 2\<close>. With \<open>2 ^ 61 - 1\<close> lines and chunks of \<open>2 ^ 60\<close> lines it
  returns 3 jobs as well, where the chunk size does not divide the line count and the
  ceiling of the quotient is 2.
\<close>

theorem partition_job_count_counterexample:
  "\<not> (\<exists>jobs. make_jobs_params_tuples_list ''in.vcf'' 4 2 ''db'' ''coll'' ''hg19'' None 1
              = (Inr jobs :: unit error + param list list)
        \<and> int (length jobs) = \<lceil>real 4 / real 2\<rceil>)
   \<and> \<not> (\<exists>jobs. make_jobs_params_tuples_list ''in.vcf'' (2 ^ 61 - 1) (2 ^ 60) ''db'' ''coll''
              ''hg19'' None 1 = (Inr jobs :: unit error + param list list)
        \<and> int (length jobs) = \<lceil>real (2 ^ 61 - 1) / real (2 ^ 60)\<rceil>)"
proof -
  have small: "(0::nat) < 2" "(4::nat) < 2 ^ 52" "(2::nat) < 2 ^ 52" by simp_all
  have c: "\<lceil>real (2 ^ 61 - 1) / real (2 ^ 60)\<rceil> = 2"
    using ceil_div[of "2 ^ 60" "2 ^ 61 - 1"] by simp
  show ?thesis
  proof
    show "\<not> (\<exists>jobs. make_jobs_params_tuples_list ''in.vcf'' 4 2 ''db'' ''coll'' ''hg19'' None 1
              = (Inr jobs :: unit error + param list list)
        \<and> int (length jobs) = \<lceil>real 4 / real 2\<rceil>)"
      by (simp add: make_jobs_eq[OF small])
    show "\<not> (\<exists>jobs. make_jobs_params_tuples_list ''in.vcf'' (2 ^ 61 - 1) (2 ^ 60) ''db'' ''coll''
              ''hg19'' None 1 = (Inr jobs :: unit error + param list list)
        \<and> int (length jobs) = \<lceil>real (2 ^ 61 - 1) / real (2 ^ 60)\<rceil>)"
      unfolding make_jobs_large c by simp
  qed
qed

section \<open>Properties of the identifiers of a VCF chunk\<close>

lemma hgvs_ids_loop_step:
  "hgvs_ids_loop fmt (r # rs) acc =
     (case first_alt_hgvs_id fmt r of
        Inl e \<Rightarrow> Inl e
      | Inr n \<Rightarrow> hgvs_ids_loop fmt rs (acc @ [n]))"
  by (cases "ALT r") (simp_all add: first_alt_hgvs_id_def split: sum.splits)

lemma hgvs_ids_loop_Inr:
  "hgvs_ids_loop fmt rs acc = Inr ids \<longleftrightarrow>
     (\<exists>new. ids = acc @ new \<and> map (first_alt_hgvs_id fmt) rs = map Inr new)"
proof (induction rs arbitrary: acc)
  case Nil
  show ?case by auto
next
  case (Cons r rs)
  show ?case
  proof (cases "first_alt_hgvs_id fmt r")
    case (Inl e)
    then show ?thesis by (auto simp: hgvs_ids_loop_step simp del: hgvs_ids_loop.simps)
  next
    case (Inr n)
    have "(\<exists>new. ids = (acc @ [n]) @ new \<and> map (first_alt_hgvs_id fmt) rs = map Inr new)
       \<longleftrightarrow> (\<exists>new. ids = acc @ new \<and> Inr n # map (first_alt_hgvs_id fmt) rs = map Inr new)"
      (is "?L \<longleftrightarrow> ?R")
    proof
      assume ?L
      then obtain new where n: "ids = (acc @ [n]) @ new"
        and m: "map (first_alt_hgvs_id fmt) rs = map Inr new"
        by (elim exE conjE)
      have "ids = acc @ (n # new)" using n by simp
      moreover have "Inr n # map (first_alt_hgvs_id fmt) rs = map Inr (n # new)"
        using m by simp
      ultimately show ?R by (intro exI[of _ "n # new"] conjI)
    next
      assume ?R
      then obtain new where a: "ids = acc @ new"
        and b: "Inr n # map (first_alt_hgvs_id fmt) rs = map Inr new"
        by (elim exE conjE)
      from b obtain new' where c: "new = n # new'"
        and d: "map (first_alt_hgvs_id fmt) rs = map Inr new'"
        by (cases new) simp_all
      have "ids = (acc @ [n]) @ new'" using a c by simp
      with d show ?L by (intro exI[of _ new'] conjI)
    qed
    with Inr Cons.IH[of "acc @ [n]"] show ?thesis
      by (simp add: hgvs_ids_loop_step del: hgvs_ids_loop.simps)
  qed
qed

lemma hgvs_ids_loop_cong:
  "map (first_alt_hgvs_id fmt) rs' = map (first_alt_hgvs_id fmt) rs \<Longrightarrow>
   hgvs_ids_loop fmt rs' acc = hgvs_ids_loop fmt rs acc"
proof (induction rs arbitrary: rs' acc)
  case Nil
  then show ?case by simp
next
  case (Cons r rs)
  then obtain r' rs'' where rs': "rs' = r' # rs''" by (cases rs') auto
  with Cons.prems have h: "first_alt_hgvs_id fmt r' = first_alt_hgvs_id fmt r"
    and t: "map (first_alt_hgvs_id fmt) rs'' = map (first_alt_hgvs_id fmt) rs" by auto
  show ?case
    unfolding rs' hgvs_ids_loop_step h using Cons.IH[OF t] by (simp split: sum.splits)
qed

lemma islice_map: "map f (islice xs a b) = islice (map f xs) a b"
  by (simp add: islice_def take_map drop_map)

lemma first_alt_hgvs_id_cong:
  "(CHROM r', POS r', REF r', take 1 (ALT r')) = (CHROM r, POS r, REF r, take 1 (ALT r)) \<Longrightarrow>
   first_alt_hgvs_id fmt r' = first_alt_hgvs_id fmt r"
  by (simp add: first_alt_hgvs_id_def split: list.splits)

text \<open>
  Claim C10. The identifiers derived from a chunk of a VCF are, in order, those of the
  records \<open>[chunk_index * chunk_size, (chunk_index + 1) * chunk_size)\<close> of the reader,
  one for each record (as many as there are records in that range), each built from
  the first alternate allele of its record. Two files that differ only in the
  alternate alleles after the first give the same identifiers, and the same error if
  there is one.
\<close>

theorem hgvs_ids_one_per_record:
  "(get_hgvs_ids_from_vcf format_hgvs reader chunk_index chunk_size = Inr hgvs_ids \<longleftrightarrow>
      map (first_alt_hgvs_id format_hgvs)
          (islice reader (chunk_index * chunk_size) ((chunk_index + 1) * chunk_size))
        = map Inr hgvs_ids)
   \<and> (get_hgvs_ids_from_vcf format_hgvs reader chunk_index chunk_size = Inr hgvs_ids \<longrightarrow>
        length hgvs_ids = min chunk_size (length reader - chunk_index * chunk_size))
   \<and> (map (\<lambda>r. (CHROM r, POS r, REF r, take 1 (ALT r))) reader'
         = map (\<lambda>r. (CHROM r, POS r, REF r, take 1 (ALT r))) reader \<longrightarrow>
        get_hgvs_ids_from_vcf format_hgvs reader' chunk_index chunk_size
          = get_hgvs_ids_from_vcf format_hgvs reader chunk_index chunk_size)"
proof (intro conjI impI)
  let ?sl = "islice reader (chunk_index * chunk_size) ((chunk_index + 1) * chunk_size)"
  show iff: "get_hgvs_ids_from_vcf format_hgvs reader chunk_index chunk_size = Inr hgvs_ids \<longleftrightarrow>
      map (first_alt_hgvs_id format_hgvs) ?sl = map Inr hgvs_ids"
    by (simp add: get_hgvs_ids_from_vcf_def hgvs_ids_loop_Inr)
  {
    assume "get_hgvs_ids_from_vcf format_hgvs reader chunk_index chunk_size = Inr hgvs_ids"
    with iff have "map (first_alt_hgvs_id format_hgvs) ?sl = map Inr hgvs_ids" by simp
    then have "length hgvs_ids = length ?sl" by (metis length_map)
    then show "length hgvs_ids = min chunk_size (length reader - chunk_index * chunk_size)"
      by (simp add: islice_def min_def)
  }
  {
    let ?key = "\<lambda>r. (CHROM r, POS r, REF r, take 1 (ALT r))"
    assume eq: "map ?key reader' = map ?key reader"
    have fa: "first_alt_hgvs_id format_hgvs = (\<lambda>k. case k of (c, p, r, a) \<Rightarrow>
        first_alt_hgvs_id format_hgvs \<lparr>CHROM = c, POS = p, REF = r, ALT = a\<rparr>) \<circ> ?key"
      by (auto simp: first_alt_hgvs_id_def fun_eq_iff split: list.splits)
    have "map (first_alt_hgvs_id format_hgvs) reader' = map (first_alt_hgvs_id format_hgvs) reader"
      by (subst (1 2) fa) (simp only: map_map[symmetric] eq)
    then have "map (first_alt_hgvs_id format_hgvs)
                 (islice reader' (chunk_index * chunk_size) ((chunk_index + 1) * chunk_size))
             = map (first_alt_hgvs_id format_hgvs) ?sl"
      by (simp add: islice_map)
    then show "get_hgvs_ids_from_vcf format_hgvs reader' chunk_index chunk_size
          = get_hgvs_ids_from_vcf format_hgvs reader chunk_index chunk_size"
      unfolding get_hgvs_ids_from_vcf_def by (rule hgvs_ids_loop_cong)
  }
qed

theorem hgvs_ids_one_per_record_witness:
  "get_hgvs_ids_from_vcf plain_format three_records 0 2 = Inr [''chr1:g.A>G'', ''chrMT:g.C>T'']
   \<and> length [''chr1:g.A>G'', ''chrMT:g.C>T''] = min 2 (length three_records - 0 * 2)
   \<and> get_hgvs_ids_from_vcf plain_format
        (map (\<lambda>r. r\<lparr>ALT := take 1 (ALT r)\<rparr>) three_records) 0 2
       = Inr [''chr1:g.A>G'', ''chrMT:g.C>T'']"
proof -
  note t = hgvs_ids_one_per_record[of plain_format three_records 0 2
             "[''chr1:g.A>G'', ''chrMT:g.C>T'']"
             "map (\<lambda>r. r\<lparr>ALT := take 1 (ALT r)\<rparr>) three_records"]
  have 1: "get_hgvs_ids_from_vcf plain_format three_records 0 2 = Inr [''chr1:g.A>G'', ''chrMT:g.C>T'']"
    by (simp add: get_hgvs_ids_from_vcf_def islice_def three_records_def plain_format_def
        py_str_def complete_chromosome_def)
  have 2: "length [''chr1:g.A>G'', ''chrMT:g.C>T''] = min 2 (length three_records - 0 * 2)"
    using t[THEN conjunct2, THEN conjunct1] 1 by (rule mp)
  have k: "map (\<lambda>r. (CHROM r, POS r, REF r, take 1 (ALT r)))
             (map (\<lambda>r. r\<lparr>ALT := take 1 (ALT r)\<rparr>) three_records)
         = map (\<lambda>r. (CHROM r, POS r, REF r, take 1 (ALT r))) three_records"
    by (simp add: three_records_def)
  have 3: "get_hgvs_ids_from_vcf plain_format
        (map (\<lambda>r. r\<lparr>ALT := take 1 (ALT r)\<rparr>) three_records) 0 2
       = get_hgvs_ids_from_vcf plain_format three_records 0 2"
    using t[THEN conjunct2, THEN conjunct2] k by (rule mp)
  from 1 2 3 show ?thesis by (simp only: simp_thms)
qed

section \<open>Properties of the remote annotation client\<close>

lemma client_returns:
  "service (length (requests s)) (ids, gb) = Returns data \<Longrightarrow>
   get_myvariantinfo_annotations_dict (Suc frames) service ids gb s =
     (Inr (remove_id_key data), s\<lparr>requests := requests s @ [(ids, gb)]\<rparr>)"
  by (simp add: Let_def)

lemma client_raises:
  "service (length (requests s)) (ids, gb) = Raises e \<Longrightarrow>
   get_myvariantinfo_annotations_dict (Suc frames) service ids gb s =
     (case get_myvariantinfo_annotations_dict frames service ids gb
          (s\<lparr>requests := requests s @ [(ids, gb)],
             logged := logged s @ [''Error: '' @ e @ ''while fetching from MyVariant, retrying...''],
             slept := slept s + 5\<rparr>) of
        (Inl e, s2) \<Rightarrow> (Inl e, s2)
      | (Inr variant_data, s2) \<Rightarrow> (Inr (remove_id_key variant_data), s2))"
  by (simp add: Let_def)

lemma client_after_failures:
  assumes "k < frames"
      and "\<forall>j<k. service (length (requests s) + j) (ids, gb) = Raises (err j)"
      and "service (length (requests s) + k) (ids, gb) = Returns data"
  shows "get_myvariantinfo_annotations_dict frames service ids gb s =
     (Inr ((remove_id_key ^^ Suc k) data),
      s\<lparr>requests := requests s @ replicate (Suc k) (ids, gb),
        logged := logged s @ map (\<lambda>j. ''Error: '' @ err j @ ''while fetching from MyVariant, retrying...'') [0..<k],
        slept := slept s + 5 * k\<rparr>)"
  using assms
proof (induction k arbitrary: frames s err)
  case 0
  then obtain f where f: "frames = Suc f" by (cases frames) auto
  from 0 show ?case unfolding f by (simp add: client_returns)
next
  case (Suc k)
  then obtain f where f: "frames = Suc f" and kf: "k < f" by (cases frames) auto
  let ?s' = "s\<lparr>requests := requests s @ [(ids, gb)],
             logged := logged s @ [''Error: '' @ err 0 @ ''while fetching from MyVariant, retrying...''],
             slept := slept s + 5\<rparr>"
  have r0: "service (length (requests s)) (ids, gb) = Raises (err 0)"
    using Suc.prems(2) by force
  have a: "\<forall>j<k. service (length (requests ?s') + j) (ids, gb) = Raises (err (Suc j))"
    using Suc.prems(2) by force
  have b: "service (length (requests ?s') + k) (ids, gb) = Returns data"
    using Suc.prems(3) by simp
  have m: "map (\<lambda>j. ''Error: '' @ err j @ ''while fetching from MyVariant, retrying...'') [0..<Suc k]
        = (''Error: '' @ err 0 @ ''while fetching from MyVariant, retrying...'') #
          map (\<lambda>j. ''Error: '' @ err (Suc j) @ ''while fetching from MyVariant, retrying...'') [0..<k]"
    by (simp only: map_upt_Suc)
  have ih: "get_myvariantinfo_annotations_dict f service ids gb ?s' =
     (Inr ((remove_id_key ^^ Suc k) data),
      ?s'\<lparr>requests := requests ?s' @ replicate (Suc k) (ids, gb),
        logged := logged ?s' @ map (\<lambda>j. ''Error: '' @ err (Suc j) @ ''while fetching from MyVariant, retrying...'') [0..<k],
        slept := slept ?s' + 5 * k\<rparr>)"
    using kf a b by (rule Suc.IH)
  show ?case
    unfolding f client_raises[of service s ids gb "err 0" f, OF r0] ih m
    by (simp add: replicate_app_Cons_same)
qed

lemma client_recursion_error:
  assumes "\<forall>j<frames. \<exists>e. service (length (requests s) + j) (ids, gb) = Raises e"
  shows "fst (get_myvariantinfo_annotations_dict frames service ids gb s) = Inl RecursionError
       \<and> requests (snd (get_myvariantinfo_annotations_dict frames service ids gb s))
           = requests s @ replicate frames (ids, gb)
       \<and> slept (snd (get_myvariantinfo_annotations_dict frames service ids gb s))
           = slept s + 5 * frames"
  using assms
proof (induction frames arbitrary: s)
  case 0
  show ?case by simp
next
  case (Suc f)
  from Suc.prems obtain e where r0: "service (length (requests s)) (ids, gb) = Raises e"
    by force
  let ?s' = "s\<lparr>requests := requests s @ [(ids, gb)],
             logged := logged s @ [''Error: '' @ e @ ''while fetching from MyVariant, retrying...''],
             slept := slept s + 5\<rparr>"
  have a: "\<forall>j<f. \<exists>e. service (length (requests ?s') + j) (ids, gb) = Raises e"
    using Suc.prems by force
  note ih = Suc.IH[of ?s', OF a]
  obtain r s2 where g: "get_myvariantinfo_annotations_dict f service ids gb ?s' = (r, s2)"
    by (cases "get_myvariantinfo_annotations_dict f service ids gb ?s'")
  from ih g have r: "r = Inl RecursionError"
    and q: "requests s2 = requests ?s' @ replicate f (ids, gb)"
    and sl: "slept s2 = slept ?s' + 5 * f" by simp_all
  show ?case
    unfolding client_raises[of service s ids gb e f, OF r0] g r
    using q sl by (simp add: replicate_app_Cons_same)
qed

lemma client_result:
  assumes "get_myvariantinfo_annotations_dict frames service ids gb s = (Inr recs, s')"
  shows "\<exists>k data. k < frames \<and> service (length (requests s) + k) (ids, gb) = Returns data
           \<and> (\<forall>j<k. \<exists>e. service (length (requests s) + j) (ids, gb) = Raises e)
           \<and> recs = (remove_id_key ^^ Suc k) data"
  using assms
proof (induction frames arbitrary: s recs s')
  case 0
  then show ?case by simp
next
  case (Suc f)
  let ?n = "length (requests s)"
  show ?case
  proof (cases "service ?n (ids, gb)")
    case (Returns data)
    with Suc.prems have "recs = (remove_id_key ^^ Suc 0) data" by (simp add: Let_def)
    with Returns have "0 < Suc f \<and> service (?n + 0) (ids, gb) = Returns data
           \<and> (\<forall>j<0. \<exists>e. service (?n + j) (ids, gb) = Raises e)
           \<and> recs = (remove_id_key ^^ Suc 0) data" by simp
    then show ?thesis by blast
  next
    case (Raises e)
    let ?s' = "s\<lparr>requests := requests s @ [(ids, gb)],
             logged := logged s @ [''Error: '' @ e @ ''while fetching from MyVariant, retrying...''],
             slept := slept s + 5\<rparr>"
    obtain r s2 where g: "get_myvariantinfo_annotations_dict f service ids gb ?s' = (r, s2)"
      by (cases "get_myvariantinfo_annotations_dict f service ids gb ?s'")
    from Suc.prems obtain vd where r: "r = Inr vd" and recs: "recs = remove_id_key vd"
      unfolding client_raises[of service s ids gb e f, OF Raises] g
      by (cases r) auto
    from Suc.IH[of ?s' vd s2] g r obtain k data where
      kf: "k < f"
      and k: "service (length (requests ?s') + k) (ids, gb) = Returns data"
      and fl: "\<forall>j<k. \<exists>e. service (length (requests ?s') + j) (ids, gb) = Raises e"
      and v: "vd = (remove_id_key ^^ Suc k) data"
      by auto
    have k': "service (?n + Suc k) (ids, gb) = Returns data" using k by simp
    have f': "\<exists>e. service (?n + j) (ids, gb) = Raises e" if "j < Suc k" for j
    proof (cases j)
      case 0 with Raises show ?thesis by simp
    next
      case (Suc j')
      with that have "j' < k" by simp
      with fl have "\<exists>e. service (length (requests ?s') + j') (ids, gb) = Raises e" by blast
      with Suc show ?thesis by simp
    qed
    have "recs = (remove_id_key ^^ Suc (Suc k)) data" using recs v by simp
    moreover have "Suc k < Suc f" using kf by simp
    ultimately show ?thesis using k' f' by blast
  qed
qed

lemma client_error:
  assumes "get_myvariantinfo_annotations_dict frames service ids gb s = (Inl e, s')"
  shows "e = RecursionError
       \<and> (\<forall>j<frames. \<exists>m. service (length (requests s) + j) (ids, gb) = Raises m)"
  using assms
proof (induction frames arbitrary: s s')
  case 0
  then show ?case by simp
next
  case (Suc f)
  let ?n = "length (requests s)"
  show ?case
  proof (cases "service ?n (ids, gb)")
    case (Returns data)
    with Suc.prems show ?thesis by (simp add: Let_def)
  next
    case (Raises m)
    let ?s' = "s\<lparr>requests := requests s @ [(ids, gb)],
             logged := logged s @ [''Error: '' @ m @ ''while fetching from MyVariant, retrying...''],
             slept := slept s + 5\<rparr>"
    obtain r s2 where g: "get_myvariantinfo_annotations_dict f service ids gb ?s' = (r, s2)"
      by (cases "get_myvariantinfo_annotations_dict f service ids gb ?s'")
    from Suc.prems have r: "r = Inl e"
      unfolding client_raises[of service s ids gb m f, OF Raises] g
      by (cases r) auto
    from Suc.IH[of ?s' s2] g r have e: "e = RecursionError"
      and fl: "\<forall>j<f. \<exists>m. service (length (requests ?s') + j) (ids, gb) = Raises m"
      by auto
    have "\<exists>m. service (?n + j) (ids, gb) = Raises m" if "j < Suc f" for j
    proof (cases j)
      case 0 with Raises show ?thesis by simp
    next
      case (Suc j')
      with that have "j' < f" by simp
      with fl have "\<exists>m. service (length (requests ?s') + j') (ids, gb) = Raises m" by blast
      with Suc show ?thesis by simp
    qed
    with e show ?thesis by blast
  qed
qed

lemma remove_id_key_dic_fields:
  "remove_id_key_dic d ''_id'' = None"
  "remove_id_key_dic d ''query'' = None"
  "remove_id_key_dic d ''hgvs_id'' = Some (case d ''query'' of None \<Rightarrow> PyNone | Some v \<Rightarrow> v)"
  "k \<noteq> ''_id'' \<Longrightarrow> k \<noteq> ''query'' \<Longrightarrow> k \<noteq> ''hgvs_id'' \<Longrightarrow> remove_id_key_dic d k = d k"
  by (auto simp: remove_id_key_dic_def dict_pop_def Let_def split: option.splits)

lemma remove_id_key_dic_twice:
  "remove_id_key_dic (remove_id_key_dic d) ''hgvs_id'' = Some PyNone"
  by (simp add: remove_id_key_dic_fields)

text \<open>
  Claim C7, as amended. The client has no attempt counter; what bounds the retries is
  the depth of the recursion. When fewer calls of the service raise than the interpreter
  allows nested invocations, and the next call returns, the client returns: it has
  issued one call for each failure and one more, each with the whole request, logged
  one line and slept 5 seconds for each failure, and returns the records of the
  successful call after post-processing. When every call that fits in the stack raises,
  RecursionError reaches the caller, after as many requests as there were frames.
  The client returns records only when a call has returned after calls that all raised,
  and the only error it raises is RecursionError after that many failed calls.
\<close>

theorem client_retries_within_recursion_limit:
  "(\<forall>k err data.
      k < frames
      \<and> (\<forall>j<k. service (length (requests s) + j) (ids, gb) = Raises (err j))
      \<and> service (length (requests s) + k) (ids, gb) = Returns data \<longrightarrow>
      get_myvariantinfo_annotations_dict frames service ids gb s =
        (Inr ((remove_id_key ^^ Suc k) data),
         s\<lparr>requests := requests s @ replicate (Suc k) (ids, gb),
           logged := logged s @
             map (\<lambda>j. ''Error: '' @ err j @ ''while fetching from MyVariant, retrying...'')
               [0..<k],
           slept := slept s + 5 * k\<rparr>))
   \<and> ((\<forall>j<frames. \<exists>e. service (length (requests s) + j) (ids, gb) = Raises e) \<longrightarrow>
        fst (get_myvariantinfo_annotations_dict frames service ids gb s) = Inl RecursionError
        \<and> requests (snd (get_myvariantinfo_annotations_dict frames service ids gb s))
            = requests s @ replicate frames (ids, gb))
   \<and> (\<forall>recs s'. get_myvariantinfo_annotations_dict frames service ids gb s = (Inr recs, s') \<longrightarrow>
        (\<exists>k data. k < frames \<and> service (length (requests s) + k) (ids, gb) = Returns data
           \<and> (\<forall>j<k. \<exists>e. service (length (requests s) + j) (ids, gb) = Raises e)
           \<and> recs = (remove_id_key ^^ Suc k) data))
   \<and> (\<forall>e s'. get_myvariantinfo_annotations_dict frames service ids gb s = (Inl e, s') \<longrightarrow>
        e = RecursionError
        \<and> (\<forall>j<frames. \<exists>m. service (length (requests s) + j) (ids, gb) = Raises m))"
proof -
  have 1: "\<forall>k err data.
      k < frames
      \<and> (\<forall>j<k. service (length (requests s) + j) (ids, gb) = Raises (err j))
      \<and> service (length (requests s) + k) (ids, gb) = Returns data \<longrightarrow>
      get_myvariantinfo_annotations_dict frames service ids gb s =
        (Inr ((remove_id_key ^^ Suc k) data),
         s\<lparr>requests := requests s @ replicate (Suc k) (ids, gb),
           logged := logged s @
             map (\<lambda>j. ''Error: '' @ err j @ ''while fetching from MyVariant, retrying...'')
               [0..<k],
           slept := slept s + 5 * k\<rparr>)"
  proof (intro allI impI)
    fix k err data
    assume a: "k < frames
      \<and> (\<forall>j<k. service (length (requests s) + j) (ids, gb) = Raises (err j))
      \<and> service (length (requests s) + k) (ids, gb) = Returns data"
    from a have a1: "k < frames"
      and a2: "\<forall>j<k. service (length (requests s) + j) (ids, gb) = Raises (err j)"
      and a3: "service (length (requests s) + k) (ids, gb) = Returns data" by simp_all
    from a1 a2 a3 show "get_myvariantinfo_annotations_dict frames service ids gb s =
        (Inr ((remove_id_key ^^ Suc k) data),
         s\<lparr>requests := requests s @ replicate (Suc k) (ids, gb),
           logged := logged s @
             map (\<lambda>j. ''Error: '' @ err j @ ''while fetching from MyVariant, retrying...'')
               [0..<k],
           slept := slept s + 5 * k\<rparr>)"
      by (rule client_after_failures)
  qed
  have 2: "(\<forall>j<frames. \<exists>e. service (length (requests s) + j) (ids, gb) = Raises e) \<longrightarrow>
        fst (get_myvariantinfo_annotations_dict frames service ids gb s) = Inl RecursionError
        \<and> requests (snd (get_myvariantinfo_annotations_dict frames service ids gb s))
            = requests s @ replicate frames (ids, gb)"
  proof (rule impI)
    assume "\<forall>j<frames. \<exists>e. service (length (requests s) + j) (ids, gb) = Raises e"
    from client_recursion_error[where frames = frames and service = service and s = s
           and ids = ids and gb = gb, OF this]
    show "fst (get_myvariantinfo_annotations_dict frames service ids gb s) = Inl RecursionError
        \<and> requests (snd (get_myvariantinfo_annotations_dict frames service ids gb s))
            = requests s @ replicate frames (ids, gb)" by simp
  qed
  have 3: "\<forall>recs s'. get_myvariantinfo_annotations_dict frames service ids gb s = (Inr recs, s') \<longrightarrow>
        (\<exists>k data. k < frames \<and> service (length (requests s) + k) (ids, gb) = Returns data
           \<and> (\<forall>j<k. \<exists>e. service (length (requests s) + j) (ids, gb) = Raises e)
           \<and> recs = (remove_id_key ^^ Suc k) data)"
    using client_result[of frames service ids gb s] by blast
  have 4: "\<forall>e s'. get_myvariantinfo_annotations_dict frames service ids gb s = (Inl e, s') \<longrightarrow>
        e = RecursionError
        \<and> (\<forall>j<frames. \<exists>m. service (length (requests s) + j) (ids, gb) = Raises m)"
    using client_error[of frames service ids gb s] by blast
  from 1 2 3 4 show ?thesis by (intro conjI)
qed

theorem client_retries_within_recursion_limit_witness:
  "(\<exists>recs. get_myvariantinfo_annotations_dict 1000 flaky_service [''chr1:g.100A>G''] ''hg19''
       \<lparr>requests = [], logged = [], slept = 0\<rparr> =
     (Inr recs,
       \<lparr>requests = [([''chr1:g.100A>G''], ''hg19''), ([''chr1:g.100A>G''], ''hg19''),
                    ([''chr1:g.100A>G''], ''hg19'')],
        logged = [''Error: timeout while fetching from MyVariant, retrying...'',
                  ''Error: timeout while fetching from MyVariant, retrying...''],
        slept = 10\<rparr>))
   \<and> fst (get_myvariantinfo_annotations_dict 3 down_service [''chr1:g.100A>G''] ''hg19''
       \<lparr>requests = [], logged = [], slept = 0\<rparr>) = Inl RecursionError"
proof -
  let ?s = "\<lparr>requests = [], logged = [], slept = 0\<rparr>"
  let ?ids = "[''chr1:g.100A>G'']"
  let ?data = "[[''_id'' \<mapsto> PyStr ''chr1:g.100A>G'', ''query'' \<mapsto> PyStr ''chr1:g.100A>G'']] :: nat pydict list"
  note a = client_retries_within_recursion_limit[of 1000 flaky_service ?s ?ids "''hg19''",
              THEN conjunct1, rule_format, of 2 "\<lambda>_. ''timeout ''" ?data]
  note b = client_retries_within_recursion_limit[of 3 down_service ?s ?ids "''hg19''",
              THEN conjunct2, THEN conjunct1, rule_format, THEN conjunct1]
  have pre: "2 < (1000::nat)
      \<and> (\<forall>j<2. flaky_service (length (requests ?s) + j) (?ids, ''hg19'') = Raises ''timeout '')
      \<and> flaky_service (length (requests ?s) + 2) (?ids, ''hg19'') = Returns ?data"
    by (simp add: flaky_service_def)
  have 1: "get_myvariantinfo_annotations_dict 1000 flaky_service ?ids ''hg19'' ?s =
        (Inr ((remove_id_key ^^ Suc 2) ?data),
         ?s\<lparr>requests := requests ?s @ replicate (Suc 2) (?ids, ''hg19''),
           logged := logged ?s @
             map (\<lambda>j. ''Error: '' @ ''timeout '' @ ''while fetching from MyVariant, retrying...'')
               [0..<2],
           slept := slept ?s + 5 * 2\<rparr>)"
    using a[OF pre] .
  have 2: "fst (get_myvariantinfo_annotations_dict 3 down_service ?ids ''hg19'' ?s) = Inl RecursionError"
    by (rule b) (simp add: down_service_def)
  show ?thesis
    unfolding 1 2 by (simp add: numeral_2_eq_2 upt_rec)
qed

text \<open>
  A service that is down, and a stack with room for 1000 nested invocations: after 1000
  requests RecursionError reaches the caller.
\<close>

theorem client_retries_counterexample:
  "fst (get_myvariantinfo_annotations_dict 1000 down_service [''chr1:g.100A>G''] ''hg19''
         \<lparr>requests = [], logged = [], slept = 0\<rparr>) = Inl RecursionError
   \<and> length (requests (snd (get_myvariantinfo_annotations_dict 1000 down_service
         [''chr1:g.100A>G''] ''hg19'' \<lparr>requests = [], logged = [], slept = 0\<rparr>))) = 1000"
proof -
  have "\<forall>j<1000. \<exists>e. down_service (length (requests \<lparr>requests = [], logged = [], slept = 0\<rparr>) + j)
          ([''chr1:g.100A>G''], ''hg19'') = Raises e"
    by (simp add: down_service_def)
  from client_recursion_error[where frames = 1000 and service = down_service
         and s = "\<lparr>requests = [], logged = [], slept = 0\<rparr>"
         and ids = "[''chr1:g.100A>G'']" and gb = "''hg19''", OF this]
  show ?thesis by simp
qed

text \<open>
  Claim C6 at a failing input: the first call of the service raises and the second
  returns one record with both \<open>_id\<close> and \<open>query\<close>. The record comes back from the
  recursive call already rewritten, is rewritten once more, and its \<open>hgvs_id\<close> is
  \<open>None\<close> instead of the identifier queried.
\<close>

theorem client_retry_loses_hgvs_id:
  "\<exists>recs s'. get_myvariantinfo_annotations_dict 1000 once_failing_service [''chr1:g.100A>G'']
       ''hg19'' \<lparr>requests = [], logged = [], slept = 0\<rparr> = (Inr recs, s')
     \<and> map (\<lambda>dic. dic ''hgvs_id'') recs = [Some PyNone]
     \<and> map (\<lambda>dic. dic ''_id'') recs = [None]
     \<and> map (\<lambda>dic. dic ''query'') recs = [None]"
proof -
  let ?s = "\<lparr>requests = [], logged = [], slept = 0\<rparr>"
  let ?ids = "[''chr1:g.100A>G'']"
  let ?data = "[[''_id'' \<mapsto> PyStr ''chr1:g.100A>G'', ''query'' \<mapsto> PyStr ''chr1:g.100A>G'']] :: nat pydict list"
  have r: "get_myvariantinfo_annotations_dict 1000 once_failing_service ?ids ''hg19'' ?s =
      (Inr ((remove_id_key ^^ Suc 1) ?data),
       ?s\<lparr>requests := requests ?s @ replicate (Suc 1) (?ids, ''hg19''),
          logged := logged ?s @
             map (\<lambda>j. ''Error: '' @ (\<lambda>_. ''timeout'') j @ ''while fetching from MyVariant, retrying...'')
               [0..<1],
          slept := slept ?s + 5 * 1\<rparr>)"
    by (rule client_after_failures) (simp_all add: once_failing_service_def)
  have h: "map (\<lambda>dic. dic ''hgvs_id'') ((remove_id_key ^^ Suc 1) ?data) = [Some PyNone]"
    "map (\<lambda>dic. dic ''_id'') ((remove_id_key ^^ Suc 1) ?data) = [None]"
    "map (\<lambda>dic. dic ''query'') ((remove_id_key ^^ Suc 1) ?data) = [None]"
    by (simp_all add: remove_id_key_def remove_id_key_dic_fields)
  show ?thesis
    by (intro exI conjI, rule r) (rule h(1), rule h(2), rule h(3))
qed

section \<open>Properties of the merge\<close>

lemma merge_match:
  "h mv ''hgvs_id'' = Some v \<Longrightarrow> h an ''hgvs_id'' = Some v \<Longrightarrow>
   merge_annovar_and_myvariant_dicts h mv an = (Inr an, h(an := h an ++ h mv))"
  by (simp add: merge_annovar_and_myvariant_dicts_def getitem_def)

lemma merge_mismatch:
  "h mv ''hgvs_id'' = Some a \<Longrightarrow> h an ''hgvs_id'' = Some b \<Longrightarrow> a \<noteq> b \<Longrightarrow>
   merge_annovar_and_myvariant_dicts h mv an =
     (Inl (ValueError [Txt ''myvariant hgvs_id '', Arg a,
                       Txt '' not equal to annovar hgvs_id '', Arg b]), h)"
  by (simp add: merge_annovar_and_myvariant_dicts_def getitem_def)

lemma merge_Inl:
  "merge_annovar_and_myvariant_dicts h mv an = (Inl e, h') \<Longrightarrow> h' = h"
  by (auto simp: merge_annovar_and_myvariant_dicts_def getitem_def split: option.splits if_splits)

lemma merge_Inr:
  "merge_annovar_and_myvariant_dicts h mv an = (Inr r, h') \<Longrightarrow>
   r = an \<and> h' = h(an := h an ++ h mv) \<and>
   (\<exists>v. h mv ''hgvs_id'' = Some v \<and> h an ''hgvs_id'' = Some v)"
  by (auto simp: merge_annovar_and_myvariant_dicts_def getitem_def split: option.splits if_splits)

lemma merge_keeps_ids:
  assumes "merge_annovar_and_myvariant_dicts h mv an = (res, h')"
  shows "h' p ''hgvs_id'' = h p ''hgvs_id''"
proof (cases res)
  case (Inl e)
  with assms have "h' = h" using merge_Inl[of h mv an e h'] by simp
  then show ?thesis by simp
next
  case (Inr r)
  with assms merge_Inr[of h mv an r h'] obtain v where
    "h' = h(an := h an ++ h mv)" "h mv ''hgvs_id'' = Some v" "h an ''hgvs_id'' = Some v"
    by auto
  then show ?thesis by (simp add: map_add_Some_iff)
qed

lemma merge_loop_step_ok:
  assumes "i < length mvs" "i < length ans"
  shows "merge_loop (i # rest) mvs ans acc h =
     (case merge_annovar_and_myvariant_dicts h (mvs ! i) (ans ! i) of
        (Inl e, h') \<Rightarrow> (Inl e, h')
      | (Inr merged, h') \<Rightarrow> merge_loop rest mvs ans (acc @ [merged]) h')"
  using assms by simp

lemma merge_loop_keeps_ids:
  "merge_loop idxs mvs ans acc h = (res, h') \<Longrightarrow> h' p ''hgvs_id'' = h p ''hgvs_id''"
proof (induction idxs arbitrary: acc h)
  case Nil
  then show ?case by simp
next
  case (Cons i rest)
  show ?case
  proof (cases "i < length mvs \<and> i < length ans")
    case False
    with Cons.prems show ?thesis by (auto split: if_splits)
  next
    case True
    obtain r h1 where m: "merge_annovar_and_myvariant_dicts h (mvs ! i) (ans ! i) = (r, h1)"
      by (cases "merge_annovar_and_myvariant_dicts h (mvs ! i) (ans ! i)")
    have k: "h1 p ''hgvs_id'' = h p ''hgvs_id''" using m by (rule merge_keeps_ids)
    show ?thesis
    proof (cases r)
      case (Inl e)
      with Cons.prems True m have "h' = h1" by simp
      with k show ?thesis by simp
    next
      case (Inr merged)
      with Cons.prems True m have "merge_loop rest mvs ans (acc @ [merged]) h1 = (res, h')"
        by simp
      from Cons.IH[OF this] k show ?thesis by simp
    qed
  qed
qed

lemma merge_loop_short:
  "\<exists>i\<in>set idxs. length mvs \<le> i \<or> length ans \<le> i \<Longrightarrow>
   \<exists>e h'. merge_loop idxs mvs ans acc h = (Inl e, h')"
proof (induction idxs arbitrary: acc h)
  case Nil
  then show ?case by simp
next
  case (Cons i rest)
  show ?case
  proof (cases "i < length mvs \<and> i < length ans")
    case False
    then show ?thesis by auto
  next
    case True
    with Cons.prems have rest: "\<exists>i\<in>set rest. length mvs \<le> i \<or> length ans \<le> i" by auto
    obtain r h1 where m: "merge_annovar_and_myvariant_dicts h (mvs ! i) (ans ! i) = (r, h1)"
      by (cases "merge_annovar_and_myvariant_dicts h (mvs ! i) (ans ! i)")
    show ?thesis
    proof (cases r)
      case (Inl e)
      with True m show ?thesis by simp
    next
      case (Inr merged)
      with True m Cons.IH[OF rest, of "acc @ [merged]" h1] show ?thesis by simp
    qed
  qed
qed

lemma merge_loop_mismatch:
  assumes "i \<in> set idxs" "i < length mvs" "i < length ans"
    and "h (mvs ! i) ''hgvs_id'' = Some a" "h (ans ! i) ''hgvs_id'' = Some b" "a \<noteq> b"
  shows "\<exists>e h'. merge_loop idxs mvs ans acc h = (Inl e, h')"
  using assms
proof (induction idxs arbitrary: acc h)
  case Nil
  then show ?case by simp
next
  case (Cons j rest)
  show ?case
  proof (cases "j < length mvs \<and> j < length ans")
    case False
    then show ?thesis by auto
  next
    case True
    obtain r h1 where m: "merge_annovar_and_myvariant_dicts h (mvs ! j) (ans ! j) = (r, h1)"
      by (cases "merge_annovar_and_myvariant_dicts h (mvs ! j) (ans ! j)")
    show ?thesis
    proof (cases r)
      case (Inl e)
      with True m show ?thesis by simp
    next
      case (Inr merged)
      have "j \<noteq> i"
      proof
        assume "j = i"
        with m Inr Cons.prems(4,5,6) show False by (simp add: merge_mismatch)
      qed
      with Cons.prems(1) have in_rest: "i \<in> set rest" by simp
      have k: "h1 (mvs ! i) ''hgvs_id'' = Some a" "h1 (ans ! i) ''hgvs_id'' = Some b"
        using merge_keeps_ids[OF m] Cons.prems(4,5) by simp_all
      have step: "merge_loop (j # rest) mvs ans acc h = merge_loop rest mvs ans (acc @ [merged]) h1"
        using True m Inr by simp
      have "\<exists>e h'. merge_loop rest mvs ans (acc @ [merged]) h1 = (Inl e, h')"
        using in_rest Cons.prems(2,3) k Cons.prems(6) by (rule Cons.IH)
      then show ?thesis unfolding step .
    qed
  qed
qed

lemma merge_loop_first_mismatch:
  assumes "\<forall>i\<in>set pre. i < length mvs \<and> i < length ans \<and>
             (\<exists>v. h (mvs ! i) ''hgvs_id'' = Some v \<and> h (ans ! i) ''hgvs_id'' = Some v)"
    and "j < length mvs" "j < length ans"
    and "h (mvs ! j) ''hgvs_id'' = Some a" "h (ans ! j) ''hgvs_id'' = Some b" "a \<noteq> b"
  shows "\<exists>h'. merge_loop (pre @ j # post) mvs ans acc h =
           (Inl (ValueError [Txt ''myvariant hgvs_id '', Arg a,
                             Txt '' not equal to annovar hgvs_id '', Arg b]), h')"
  using assms
proof (induction pre arbitrary: acc h)
  case Nil
  then show ?case by (simp add: merge_mismatch)
next
  case (Cons i pre)
  from Cons.prems(1) obtain v where r: "i < length mvs" "i < length ans"
    and v: "h (mvs ! i) ''hgvs_id'' = Some v" "h (ans ! i) ''hgvs_id'' = Some v"
    by auto
  let ?h1 = "h(ans ! i := h (ans ! i) ++ h (mvs ! i))"
  have m: "merge_annovar_and_myvariant_dicts h (mvs ! i) (ans ! i) = (Inr (ans ! i), ?h1)"
    using v by (rule merge_match)
  have keep: "?h1 p ''hgvs_id'' = h p ''hgvs_id''" for p
    using merge_keeps_ids[OF m] .
  have pre': "\<forall>i\<in>set pre. i < length mvs \<and> i < length ans \<and>
             (\<exists>v. ?h1 (mvs ! i) ''hgvs_id'' = Some v \<and> ?h1 (ans ! i) ''hgvs_id'' = Some v)"
    using Cons.prems(1) by (simp only: keep) simp
  have a': "?h1 (mvs ! j) ''hgvs_id'' = Some a" "?h1 (ans ! j) ''hgvs_id'' = Some b"
    using Cons.prems(4,5) by (simp_all only: keep)
  have step: "merge_loop ((i # pre) @ j # post) mvs ans acc h
                = merge_loop (pre @ j # post) mvs ans (acc @ [ans ! i]) ?h1"
    using r m by simp
  have "\<exists>h'. merge_loop (pre @ j # post) mvs ans (acc @ [ans ! i]) ?h1 =
           (Inl (ValueError [Txt ''myvariant hgvs_id '', Arg a,
                             Txt '' not equal to annovar hgvs_id '', Arg b]), h')"
    using pre' Cons.prems(2,3) a' Cons.prems(6) by (rule Cons.IH)
  then show ?case unfolding step .
qed

text \<open>The heap after merging the records at the indices of a list, one after the other.\<close>

lemma merge_loop_all_match:
  assumes "\<forall>i\<in>set idxs. i < length mvs \<and> i < length ans \<and>
             (\<exists>v. h (mvs ! i) ''hgvs_id'' = Some v \<and> h (ans ! i) ''hgvs_id'' = Some v)"
  shows "merge_loop idxs mvs ans acc h =
           (Inr (acc @ map (\<lambda>i. ans ! i) idxs),
            fold (\<lambda>i h. h(ans ! i := h (ans ! i) ++ h (mvs ! i))) idxs h)"
  using assms
proof (induction idxs arbitrary: acc h)
  case Nil
  then show ?case by simp
next
  case (Cons i rest)
  from Cons.prems obtain v where r: "i < length mvs" "i < length ans"
    and v: "h (mvs ! i) ''hgvs_id'' = Some v" "h (ans ! i) ''hgvs_id'' = Some v"
    by auto
  let ?h1 = "h(ans ! i := h (ans ! i) ++ h (mvs ! i))"
  have m: "merge_annovar_and_myvariant_dicts h (mvs ! i) (ans ! i) = (Inr (ans ! i), ?h1)"
    using v by (rule merge_match)
  have keep: "?h1 p ''hgvs_id'' = h p ''hgvs_id''" for p
    using merge_keeps_ids[OF m] .
  have rest': "\<forall>i\<in>set rest. i < length mvs \<and> i < length ans \<and>
             (\<exists>v. ?h1 (mvs ! i) ''hgvs_id'' = Some v \<and> ?h1 (ans ! i) ''hgvs_id'' = Some v)"
    using Cons.prems by (simp only: keep) simp
  have step: "merge_loop (i # rest) mvs ans acc h = merge_loop rest mvs ans (acc @ [ans ! i]) ?h1"
    using r m by simp
  have ih: "merge_loop rest mvs ans (acc @ [ans ! i]) ?h1 =
           (Inr ((acc @ [ans ! i]) @ map (\<lambda>i. ans ! i) rest),
            fold (\<lambda>i h. h(ans ! i := h (ans ! i) ++ h (mvs ! i))) rest ?h1)"
    using rest' by (rule Cons.IH)
  have f: "fold (\<lambda>i h. h(ans ! i := h (ans ! i) ++ h (mvs ! i))) (i # rest) h
         = fold (\<lambda>i h. h(ans ! i := h (ans ! i) ++ h (mvs ! i))) rest ?h1"
    by simp
  have a: "(acc @ [ans ! i]) @ map (\<lambda>i. ans ! i) rest = acc @ map (\<lambda>i. ans ! i) (i # rest)"
    by simp
  show ?case unfolding step ih f a ..
qed

lemma fold_merge_other:
  "p \<notin> (\<lambda>i. ans ! i) ` set idxs \<Longrightarrow>
   fold (\<lambda>i h. h(ans ! i := h (ans ! i) ++ h (mvs ! i))) idxs h p = h p"
  by (induction idxs arbitrary: h) auto

lemma fold_merge_at:
  assumes "distinct (map (\<lambda>i. ans ! i) idxs)"
    and "\<forall>i\<in>set idxs. mvs ! i \<notin> (\<lambda>i. ans ! i) ` set idxs"
    and "i \<in> set idxs"
  shows "fold (\<lambda>i h. h(ans ! i := h (ans ! i) ++ h (mvs ! i))) idxs h (ans ! i)
           = h (ans ! i) ++ h (mvs ! i)"
  using assms
proof (induction idxs arbitrary: h)
  case Nil
  then show ?case by simp
next
  case (Cons j rest)
  let ?F = "\<lambda>i h. h(ans ! i := h (ans ! i) ++ h (mvs ! i))"
  let ?h1 = "h(ans ! j := h (ans ! j) ++ h (mvs ! j))"
  have step: "fold ?F (j # rest) h = fold ?F rest ?h1" by simp
  show ?case
  proof (cases "i = j")
    case True
    have "ans ! j \<notin> (\<lambda>i. ans ! i) ` set rest" using Cons.prems(1) by auto
    then have "fold ?F rest ?h1 (ans ! j) = ?h1 (ans ! j)"
      by (rule fold_merge_other)
    also have "\<dots> = h (ans ! j) ++ h (mvs ! j)" by simp
    finally show ?thesis unfolding step True .
  next
    case False
    with Cons.prems(3) have in_rest: "i \<in> set rest" by simp
    have d: "distinct (map (\<lambda>i. ans ! i) rest)" using Cons.prems(1) by simp
    have n: "\<forall>i\<in>set rest. mvs ! i \<notin> (\<lambda>i. ans ! i) ` set rest" using Cons.prems(2) by auto
    have "ans ! i \<in> (\<lambda>i. ans ! i) ` set rest" using in_rest by (rule imageI)
    moreover have "ans ! j \<notin> (\<lambda>i. ans ! i) ` set rest" using Cons.prems(1) by auto
    ultimately have "ans ! i \<noteq> ans ! j" by auto
    moreover have "mvs ! i \<noteq> ans ! j" using Cons.prems(2) in_rest by auto
    ultimately have e: "?h1 (ans ! i) ++ ?h1 (mvs ! i) = h (ans ! i) ++ h (mvs ! i)" by simp
    have "fold ?F rest ?h1 (ans ! i) = ?h1 (ans ! i) ++ ?h1 (mvs ! i)"
      using d n in_rest by (rule Cons.IH)
    then show ?thesis unfolding step using e by (rule trans)
  qed
qed

lemma merge_loop_Inr:
  "merge_loop idxs mvs ans acc h = (Inr docs, h') \<Longrightarrow> docs = acc @ map (\<lambda>i. ans ! i) idxs"
proof (induction idxs arbitrary: acc h)
  case Nil
  then show ?case by simp
next
  case (Cons i rest)
  have r: "i < length mvs \<and> i < length ans"
    using Cons.prems by (auto split: if_splits)
  obtain res h1 where m: "merge_annovar_and_myvariant_dicts h (mvs ! i) (ans ! i) = (res, h1)"
    by (cases "merge_annovar_and_myvariant_dicts h (mvs ! i) (ans ! i)")
  show ?case
  proof (cases res)
    case (Inl e)
    with Cons.prems r m show ?thesis by simp
  next
    case (Inr merged)
    with m have "merged = ans ! i" using merge_Inr[of h "mvs ! i" "ans ! i" merged h1] by simp
    moreover have "merge_loop rest mvs ans (acc @ [merged]) h1 = (Inr docs, h')"
      using Cons.prems r m Inr by simp
    then have "docs = (acc @ [merged]) @ map (\<lambda>i. ans ! i) rest" by (rule Cons.IH)
    ultimately show ?thesis by simp
  qed
qed

lemma nth_upt_image: "(\<lambda>i. xs ! i) ` set [0..<length xs] = set xs"
proof -
  have "(\<lambda>i. xs ! i) ` set [0..<length xs] = set (map (\<lambda>i. xs ! i) [0..<length xs])"
    by (simp only: set_map)
  then show ?thesis by (simp only: map_nth)
qed

text \<open>
  Claim C9. When the two identifiers agree, the merge returns the reference of the
  local record it was given, and the heap afterwards holds the merged document at that
  reference: the local record's fields overlaid by the remote record's, so every field
  of the remote record is there with its value. No other object changes. When the merge
  raises, the heap is unchanged; in particular on an identifier mismatch.
\<close>

theorem merge_in_place:
  "(\<forall>v. h mv ''hgvs_id'' = Some v \<and> h an ''hgvs_id'' = Some v \<longrightarrow>
      merge_annovar_and_myvariant_dicts h mv an = (Inr an, h(an := h an ++ h mv)))
   \<and> (\<forall>r h'. merge_annovar_and_myvariant_dicts h mv an = (Inr r, h') \<longrightarrow>
        r = an \<and> h' an = h an ++ h mv
        \<and> (\<forall>f v. h mv f = Some v \<longrightarrow> h' an f = Some v)
        \<and> (\<forall>p. p \<noteq> an \<longrightarrow> h' p = h p))
   \<and> (\<forall>e h'. merge_annovar_and_myvariant_dicts h mv an = (Inl e, h') \<longrightarrow> h' = h)
   \<and> (\<forall>a b. h mv ''hgvs_id'' = Some a \<and> h an ''hgvs_id'' = Some b \<and> a \<noteq> b \<longrightarrow>
        snd (merge_annovar_and_myvariant_dicts h mv an) = h)"
proof (intro conjI allI impI)
  fix v assume "h mv ''hgvs_id'' = Some v \<and> h an ''hgvs_id'' = Some v"
  then show "merge_annovar_and_myvariant_dicts h mv an = (Inr an, h(an := h an ++ h mv))"
    by (simp add: merge_match)
next
  fix r h' assume m: "merge_annovar_and_myvariant_dicts h mv an = (Inr r, h')"
  from merge_Inr[OF m] have r: "r = an" and h': "h' = h(an := h an ++ h mv)" by simp_all
  show "r = an" by (rule r)
  show "h' an = h an ++ h mv" by (simp add: h')
  { fix f v assume "h mv f = Some v"
    then show "h' an f = Some v" by (simp add: h' map_add_Some_iff) }
  { fix p assume "p \<noteq> an"
    then show "h' p = h p" by (simp add: h') }
next
  fix e h' assume "merge_annovar_and_myvariant_dicts h mv an = (Inl e, h')"
  then show "h' = h" by (rule merge_Inl)
next
  fix a b assume "h mv ''hgvs_id'' = Some a \<and> h an ''hgvs_id'' = Some b \<and> a \<noteq> b"
  then show "snd (merge_annovar_and_myvariant_dicts h mv an) = h"
    by (simp add: merge_mismatch)
qed

theorem merge_in_place_witness:
  "fst (merge_annovar_and_myvariant_dicts example_heap 10 20) = Inr 20
   \<and> snd (merge_annovar_and_myvariant_dicts example_heap 10 20) 20 ''note'' = Some (PyStr ''remote'')
   \<and> snd (merge_annovar_and_myvariant_dicts example_heap 10 20) 20 ''cadd'' = Some (PyObj 7)
   \<and> snd (merge_annovar_and_myvariant_dicts example_heap 10 20) 20 ''chr'' = Some (PyStr ''1'')
   \<and> snd (merge_annovar_and_myvariant_dicts example_heap 12 20) = example_heap"
proof -
  have ok: "example_heap 10 ''hgvs_id'' = Some (PyStr ''chr1:g.100A>G'')
      \<and> example_heap 20 ''hgvs_id'' = Some (PyStr ''chr1:g.100A>G'')"
    by (simp add: example_heap_def)
  have bad: "example_heap 12 ''hgvs_id'' = Some (PyStr ''chr3:g.9G>A'')
      \<and> example_heap 20 ''hgvs_id'' = Some (PyStr ''chr1:g.100A>G'')
      \<and> PyStr ''chr3:g.9G>A'' \<noteq> (PyStr ''chr1:g.100A>G'' :: nat pyval)"
    by (simp add: example_heap_def)
  have 1: "merge_annovar_and_myvariant_dicts example_heap 10 20
            = (Inr 20, example_heap(20 := example_heap 20 ++ example_heap 10))"
    using merge_in_place[of example_heap 10 20, THEN conjunct1, rule_format, OF ok] .
  have 2: "snd (merge_annovar_and_myvariant_dicts example_heap 12 20) = example_heap"
    using merge_in_place[of example_heap 12 20, THEN conjunct2, THEN conjunct2, THEN conjunct2,
            rule_format, OF bad] .
  show ?thesis unfolding 1 2 by (simp add: example_heap_def)
qed

lemma collect_merge_error:
  "merge_loop [0..<length ids] mvs ans [] h = (Inl e, h') \<Longrightarrow>
   collect_chunk_annotations_and_store ids mvs (Some ans) h coll = (Inl e, h', coll)"
  by (simp add: collect_chunk_annotations_and_store_def)

text \<open>
  Claim C2. Merging two records whose \<open>hgvs_id\<close> values differ raises a ValueError whose
  message is built from both identifiers, and changes nothing. When the records at some
  index of a chunk mismatch, the chunk raises and the collection is left as it was; when
  the records before that index all agree, the error raised is the mismatch error of
  the two identifiers at that index.
\<close>

theorem merge_identifier_mismatch:
  "(\<forall>a b. h mv ''hgvs_id'' = Some a \<and> h an ''hgvs_id'' = Some b \<and> a \<noteq> b \<longrightarrow>
      merge_annovar_and_myvariant_dicts h mv an =
        (Inl (ValueError [Txt ''myvariant hgvs_id '', Arg a,
                          Txt '' not equal to annovar hgvs_id '', Arg b]), h))
   \<and> (\<forall>i a b. i < length hgvs_ids_list \<and> i < length mvs \<and> i < length ans
          \<and> h (mvs ! i) ''hgvs_id'' = Some a \<and> h (ans ! i) ''hgvs_id'' = Some b \<and> a \<noteq> b \<longrightarrow>
        (\<exists>e h'. collect_chunk_annotations_and_store hgvs_ids_list mvs (Some ans) h collection
                   = (Inl e, h', collection)))
   \<and> (\<forall>j a b. j < length hgvs_ids_list \<and> j < length mvs \<and> j < length ans
          \<and> (\<forall>i<j. \<exists>v. h (mvs ! i) ''hgvs_id'' = Some v \<and> h (ans ! i) ''hgvs_id'' = Some v)
          \<and> h (mvs ! j) ''hgvs_id'' = Some a \<and> h (ans ! j) ''hgvs_id'' = Some b \<and> a \<noteq> b \<longrightarrow>
        (\<exists>h'. collect_chunk_annotations_and_store hgvs_ids_list mvs (Some ans) h collection
                 = (Inl (ValueError [Txt ''myvariant hgvs_id '', Arg a,
                                     Txt '' not equal to annovar hgvs_id '', Arg b]),
                    h', collection)))"
proof (intro conjI allI impI)
  fix a b assume "h mv ''hgvs_id'' = Some a \<and> h an ''hgvs_id'' = Some b \<and> a \<noteq> b"
  then show "merge_annovar_and_myvariant_dicts h mv an =
        (Inl (ValueError [Txt ''myvariant hgvs_id '', Arg a,
                          Txt '' not equal to annovar hgvs_id '', Arg b]), h)"
    by (simp add: merge_mismatch)
next
  fix i a b
  assume a: "i < length hgvs_ids_list \<and> i < length mvs \<and> i < length ans
          \<and> h (mvs ! i) ''hgvs_id'' = Some a \<and> h (ans ! i) ''hgvs_id'' = Some b \<and> a \<noteq> b"
  then have "i \<in> set [0..<length hgvs_ids_list]" by simp
  with a obtain e h' where "merge_loop [0..<length hgvs_ids_list] mvs ans [] h = (Inl e, h')"
    using merge_loop_mismatch[of i "[0..<length hgvs_ids_list]" mvs ans h a b "[]"] by blast
  then have "collect_chunk_annotations_and_store hgvs_ids_list mvs (Some ans) h collection
                   = (Inl e, h', collection)"
    by (rule collect_merge_error)
  then show "\<exists>e h'. collect_chunk_annotations_and_store hgvs_ids_list mvs (Some ans) h collection
                   = (Inl e, h', collection)" by blast
next
  fix j a b
  assume a: "j < length hgvs_ids_list \<and> j < length mvs \<and> j < length ans
          \<and> (\<forall>i<j. \<exists>v. h (mvs ! i) ''hgvs_id'' = Some v \<and> h (ans ! i) ''hgvs_id'' = Some v)
          \<and> h (mvs ! j) ''hgvs_id'' = Some a \<and> h (ans ! j) ''hgvs_id'' = Some b \<and> a \<noteq> b"
  then have sp: "[0..<length hgvs_ids_list] = [0..<j] @ j # [Suc j..<length hgvs_ids_list]"
    by (metis le0 less_imp_le_nat upt_add_eq_append upt_conv_Cons le_add_diff_inverse)
  have pre: "\<forall>i\<in>set [0..<j]. i < length mvs \<and> i < length ans \<and>
             (\<exists>v. h (mvs ! i) ''hgvs_id'' = Some v \<and> h (ans ! i) ''hgvs_id'' = Some v)"
    using a by auto
  from a have "j < length mvs" "j < length ans" "h (mvs ! j) ''hgvs_id'' = Some a"
    "h (ans ! j) ''hgvs_id'' = Some b" "a \<noteq> b" by simp_all
  with pre obtain h' where "merge_loop ([0..<j] @ j # [Suc j..<length hgvs_ids_list]) mvs ans [] h =
           (Inl (ValueError [Txt ''myvariant hgvs_id '', Arg a,
                             Txt '' not equal to annovar hgvs_id '', Arg b]), h')"
    using merge_loop_first_mismatch[of "[0..<j]" mvs ans h j a b "[Suc j..<length hgvs_ids_list]" "[]"]
    by blast
  then have "collect_chunk_annotations_and_store hgvs_ids_list mvs (Some ans) h collection
                 = (Inl (ValueError [Txt ''myvariant hgvs_id '', Arg a,
                                     Txt '' not equal to annovar hgvs_id '', Arg b]),
                    h', collection)"
    unfolding sp[symmetric] by (rule collect_merge_error)
  then show "\<exists>h'. collect_chunk_annotations_and_store hgvs_ids_list mvs (Some ans) h collection
                 = (Inl (ValueError [Txt ''myvariant hgvs_id '', Arg a,
                                     Txt '' not equal to annovar hgvs_id '', Arg b]),
                    h', collection)" by blast
qed

theorem merge_identifier_mismatch_witness:
  "merge_annovar_and_myvariant_dicts example_heap 12 21 =
     (Inl (ValueError [Txt ''myvariant hgvs_id '', Arg (PyStr ''chr3:g.9G>A''),
                       Txt '' not equal to annovar hgvs_id '', Arg (PyStr ''chr2:g.5C>T'')]),
      example_heap)
   \<and> (\<exists>h'. collect_chunk_annotations_and_store [''chr1:g.100A>G'', ''chr2:g.5C>T''] [10, 12]
              (Some [20, 21]) example_heap []
            = (Inl (ValueError [Txt ''myvariant hgvs_id '', Arg (PyStr ''chr3:g.9G>A''),
                                Txt '' not equal to annovar hgvs_id '', Arg (PyStr ''chr2:g.5C>T'')]),
               h', []))"
proof -
  note t = merge_identifier_mismatch[where h = example_heap and mv = 12 and an = 21
             and hgvs_ids_list = "[''chr1:g.100A>G'', ''chr2:g.5C>T'']"
             and mvs = "[10, 12]" and ans = "[20, 21]" and collection = "[]"]
  have single: "example_heap 12 ''hgvs_id'' = Some (PyStr ''chr3:g.9G>A'')
      \<and> example_heap 21 ''hgvs_id'' = Some (PyStr ''chr2:g.5C>T'')
      \<and> PyStr ''chr3:g.9G>A'' \<noteq> (PyStr ''chr2:g.5C>T'' :: nat pyval)"
    by (simp add: example_heap_def)
  have chunk: "1 < length [''chr1:g.100A>G'', ''chr2:g.5C>T''] \<and> 1 < length [10, 12 :: nat]
      \<and> 1 < length [20, 21 :: nat]
      \<and> (\<forall>i<1. \<exists>v. example_heap ([10, 12] ! i) ''hgvs_id'' = Some v
                   \<and> example_heap ([20, 21] ! i) ''hgvs_id'' = Some v)
      \<and> example_heap ([10, 12] ! 1) ''hgvs_id'' = Some (PyStr ''chr3:g.9G>A'')
      \<and> example_heap ([20, 21] ! 1) ''hgvs_id'' = Some (PyStr ''chr2:g.5C>T'')
      \<and> PyStr ''chr3:g.9G>A'' \<noteq> (PyStr ''chr2:g.5C>T'' :: nat pyval)"
    by (simp add: example_heap_def)
  from t[THEN conjunct1, rule_format, OF single]
       t[THEN conjunct2, THEN conjunct2, rule_format, OF chunk]
  show ?thesis by (rule conjI)
qed

text \<open>
  Claim C1. For \<open>k\<close> identifiers, \<open>k\<close> remote records and \<open>k\<close> local records, the local
  records being distinct objects and none of them a remote record, whose identifiers
  agree at every index: the chunk stores \<open>k\<close> documents, and document \<open>i\<close> is the local
  record \<open>i\<close> overlaid by the remote record \<open>i\<close>: its fields are those of either
  record, with the remote record's value for every field the remote record has, and
  the local record's value for the others.
\<close>

theorem merge_aligned_lists:
  assumes "length hgvs_ids_list = k" "length mvs = k" "length ans = k"
    and "distinct ans" "set ans \<inter> set mvs = {}"
    and "\<forall>i<k. \<exists>v. h (mvs ! i) ''hgvs_id'' = Some v \<and> h (ans ! i) ''hgvs_id'' = Some v"
  shows "\<exists>h' docs.
      collect_chunk_annotations_and_store hgvs_ids_list mvs (Some ans) h collection
        = (Inr (), h', collection @ docs)
    \<and> length docs = k
    \<and> (\<forall>i<k. docs ! i = h (ans ! i) ++ h (mvs ! i)
           \<and> h' (ans ! i) = docs ! i
           \<and> dom (docs ! i) = dom (h (ans ! i)) \<union> dom (h (mvs ! i))
           \<and> (\<forall>f\<in>dom (h (mvs ! i)). (docs ! i) f = h (mvs ! i) f)
           \<and> (\<forall>f. f \<notin> dom (h (mvs ! i)) \<longrightarrow> (docs ! i) f = h (ans ! i) f))"
proof -
  let ?F = "\<lambda>i h. h(ans ! i := h (ans ! i) ++ h (mvs ! i))"
  define H where "H = fold ?F [0..<k] h"
  define docs where "docs = map H ans"
  have all: "\<forall>i\<in>set [0..<k]. i < length mvs \<and> i < length ans \<and>
             (\<exists>v. h (mvs ! i) ''hgvs_id'' = Some v \<and> h (ans ! i) ''hgvs_id'' = Some v)"
    using assms(2,3,6) by simp
  have ans: "map (\<lambda>i. ans ! i) [0..<k] = ans"
    using assms(3) map_nth[of ans] by simp
  have loop: "merge_loop [0..<length hgvs_ids_list] mvs ans [] h = (Inr ans, H)"
    using merge_loop_all_match[where h = h and mvs = mvs and ans = ans and idxs = "[0..<k]"
            and acc = "[]", OF all]
    by (simp add: assms(1) ans H_def)
  have res: "collect_chunk_annotations_and_store hgvs_ids_list mvs (Some ans) h collection
        = (Inr (), H, collection @ docs)"
    by (simp add: collect_chunk_annotations_and_store_def loop store_annotations_to_db_def docs_def)
  have len: "length docs = k" by (simp add: docs_def assms(3))
  have img: "(\<lambda>i. ans ! i) ` set [0..<k] = set ans"
    using nth_upt_image[of ans] assms(3) by simp
  have d: "distinct (map (\<lambda>i. ans ! i) [0..<k])" using assms(4) by (simp only: ans)
  have n: "\<forall>i\<in>set [0..<k]. mvs ! i \<notin> (\<lambda>i. ans ! i) ` set [0..<k]"
    unfolding img using assms(2,5) by auto
  have at: "H (ans ! i) = h (ans ! i) ++ h (mvs ! i)" if "i < k" for i
    unfolding H_def using d n by (rule fold_merge_at) (use that in simp)
  have each: "docs ! i = h (ans ! i) ++ h (mvs ! i)
           \<and> H (ans ! i) = docs ! i
           \<and> dom (docs ! i) = dom (h (ans ! i)) \<union> dom (h (mvs ! i))
           \<and> (\<forall>f\<in>dom (h (mvs ! i)). (docs ! i) f = h (mvs ! i) f)
           \<and> (\<forall>f. f \<notin> dom (h (mvs ! i)) \<longrightarrow> (docs ! i) f = h (ans ! i) f)" if "i < k" for i
  proof -
    have di: "docs ! i = h (ans ! i) ++ h (mvs ! i)"
      using that assms(3) at[OF that] by (simp add: docs_def)
    show ?thesis
      unfolding di using at[OF that]
      by (auto simp: map_add_dom_app_simps)
  qed
  from res len each show ?thesis by blast
qed

theorem merge_aligned_lists_witness:
  "\<exists>h' docs.
      collect_chunk_annotations_and_store [''chr1:g.100A>G'', ''chr2:g.5C>T''] [10, 11]
        (Some [20, 21]) example_heap [] = (Inr (), h', [] @ docs)
    \<and> length docs = 2
    \<and> (docs ! 0) ''note'' = Some (PyStr ''remote'')
    \<and> (docs ! 0) ''cadd'' = Some (PyObj 7)
    \<and> (docs ! 0) ''chr'' = Some (PyStr ''1'')
    \<and> (docs ! 1) ''chr'' = Some (PyStr ''2'')"
proof -
  have a: "length [''chr1:g.100A>G'', ''chr2:g.5C>T''] = 2" "length [10, 11 :: nat] = 2"
    "length [20, 21 :: nat] = 2" "distinct [20, 21 :: nat]" "set [20, 21] \<inter> set [10, 11 :: nat] = {}"
    by simp_all
  have b: "\<forall>i<2. \<exists>v. example_heap ([10, 11] ! i) ''hgvs_id'' = Some v
                    \<and> example_heap ([20, 21] ! i) ''hgvs_id'' = Some v"
    by (simp add: example_heap_def less_2_cases_iff)
  from merge_aligned_lists[where h = example_heap and mvs = "[10, 11]" and ans = "[20, 21]"
         and hgvs_ids_list = "[''chr1:g.100A>G'', ''chr2:g.5C>T'']" and k = 2
         and collection = "[]", OF a b]
  show ?thesis
  proof (elim exE conjE)
    fix h' docs
    assume r: "collect_chunk_annotations_and_store [''chr1:g.100A>G'', ''chr2:g.5C>T''] [10, 11]
        (Some [20, 21]) example_heap [] = (Inr (), h', [] @ docs)"
      and l: "length docs = 2"
      and e: "\<forall>i<2. docs ! i = example_heap ([20, 21] ! i) ++ example_heap ([10, 11] ! i)
           \<and> h' ([20, 21] ! i) = docs ! i
           \<and> dom (docs ! i) = dom (example_heap ([20, 21] ! i)) \<union> dom (example_heap ([10, 11] ! i))
           \<and> (\<forall>f\<in>dom (example_heap ([10, 11] ! i)). (docs ! i) f = example_heap ([10, 11] ! i) f)
           \<and> (\<forall>f. f \<notin> dom (example_heap ([10, 11] ! i)) \<longrightarrow> (docs ! i) f = example_heap ([20, 21] ! i) f)"
    from e have d0: "docs ! 0 = example_heap 20 ++ example_heap 10"
      and d1: "docs ! 1 = example_heap 21 ++ example_heap 11"
      by simp_all
    have "(docs ! 0) ''note'' = Some (PyStr ''remote'')" "(docs ! 0) ''cadd'' = Some (PyObj 7)"
      "(docs ! 0) ''chr'' = Some (PyStr ''1'')" "(docs ! 1) ''chr'' = Some (PyStr ''2'')"
      unfolding d0 d1 by (simp_all add: example_heap_def map_add_def)
    with r l show ?thesis by blast
  qed
qed

text \<open>
  Claim C8, as amended. The merge runs over the indices of the identifier list. When
  the remote list or the local list is shorter than the identifier list, the chunk
  raises and the collection is left as it was. When the chunk succeeds, both lists are
  at least as long as the identifier list, and the documents stored are the local
  records at the indices of the identifier list, in order.
\<close>

theorem merge_shorter_list_fails:
  "(length mvs < length hgvs_ids_list \<or> length ans < length hgvs_ids_list \<longrightarrow>
      (\<exists>e h'. collect_chunk_annotations_and_store hgvs_ids_list mvs (Some ans) h collection
                 = (Inl e, h', collection)))
   \<and> (\<forall>h' collection'.
        collect_chunk_annotations_and_store hgvs_ids_list mvs (Some ans) h collection
          = (Inr (), h', collection') \<longrightarrow>
        length hgvs_ids_list \<le> length mvs \<and> length hgvs_ids_list \<le> length ans
        \<and> collection' = collection @ map (\<lambda>i. h' (ans ! i)) [0..<length hgvs_ids_list])"
proof (rule conjI)
  let ?n = "length hgvs_ids_list"
  show "length mvs < ?n \<or> length ans < ?n \<longrightarrow>
      (\<exists>e h'. collect_chunk_annotations_and_store hgvs_ids_list mvs (Some ans) h collection
                 = (Inl e, h', collection))"
  proof (rule impI)
  assume short: "length mvs < ?n \<or> length ans < ?n"
  have "\<exists>i\<in>set [0..<?n]. length mvs \<le> i \<or> length ans \<le> i"
  proof (cases "length mvs < ?n")
    case True
    then have "length mvs \<in> set [0..<?n]" by simp
    then show ?thesis by blast
  next
    case False
    with short have "length ans \<in> set [0..<?n]" by simp
    then show ?thesis by blast
  qed
  then obtain e h' where "merge_loop [0..<?n] mvs ans [] h = (Inl e, h')"
    using merge_loop_short[of "[0..<?n]" mvs ans "[]" h] by blast
  then have "collect_chunk_annotations_and_store hgvs_ids_list mvs (Some ans) h collection
                 = (Inl e, h', collection)"
    by (rule collect_merge_error)
  then show "\<exists>e h'. collect_chunk_annotations_and_store hgvs_ids_list mvs (Some ans) h collection
                 = (Inl e, h', collection)" by blast
  qed
next
  let ?n = "length hgvs_ids_list"
  show "\<forall>h' collection'.
        collect_chunk_annotations_and_store hgvs_ids_list mvs (Some ans) h collection
          = (Inr (), h', collection') \<longrightarrow>
        ?n \<le> length mvs \<and> ?n \<le> length ans
        \<and> collection' = collection @ map (\<lambda>i. h' (ans ! i)) [0..<?n]"
  proof (intro allI impI)
  fix h' collection'
  assume ok: "collect_chunk_annotations_and_store hgvs_ids_list mvs (Some ans) h collection
          = (Inr (), h', collection')"
  obtain res h1 where loop: "merge_loop [0..<?n] mvs ans [] h = (res, h1)"
    by (cases "merge_loop [0..<?n] mvs ans [] h")
  from ok loop obtain docs where res: "res = Inr docs" and h1: "h1 = h'"
    and c: "collection' = collection @ map h' docs"
    by (cases res)
       (auto simp: collect_chunk_annotations_and_store_def store_annotations_to_db_def)
  from loop res have docs: "docs = map (\<lambda>i. ans ! i) [0..<?n]"
    using merge_loop_Inr[of "[0..<?n]" mvs ans "[]" h docs h1] by simp
  have "\<not> (\<exists>i\<in>set [0..<?n]. length mvs \<le> i \<or> length ans \<le> i)"
  proof
    assume "\<exists>i\<in>set [0..<?n]. length mvs \<le> i \<or> length ans \<le> i"
    then obtain e h2 where "merge_loop [0..<?n] mvs ans [] h = (Inl e, h2)"
      using merge_loop_short[of "[0..<?n]" mvs ans "[]" h] by blast
    with loop res show False by simp
  qed
  then have "\<forall>i<?n. i < length mvs \<and> i < length ans" by (simp add: not_le)
  then have l: "?n \<le> length mvs \<and> ?n \<le> length ans"
    by (metis not_le_imp_less order_less_irrefl)
  have "collection' = collection @ map (\<lambda>i. h' (ans ! i)) [0..<?n]"
    unfolding c docs by (simp add: comp_def)
  with l show "?n \<le> length mvs \<and> ?n \<le> length ans
        \<and> collection' = collection @ map (\<lambda>i. h' (ans ! i)) [0..<?n]" by simp
  qed
qed

theorem merge_shorter_list_fails_witness:
  "\<exists>e h'. collect_chunk_annotations_and_store [''chr1:g.100A>G'', ''chr2:g.5C>T''] [10]
             (Some [20, 21]) example_heap [] = (Inl e, h', [])"
proof -
  have "length [10 :: nat] < length [''chr1:g.100A>G'', ''chr2:g.5C>T'']
      \<or> length [20, 21 :: nat] < length [''chr1:g.100A>G'', ''chr2:g.5C>T'']"
    by simp
  then show ?thesis
    by (rule merge_shorter_list_fails[where mvs = "[10]" and ans = "[20, 21]"
          and hgvs_ids_list = "[''chr1:g.100A>G'', ''chr2:g.5C>T'']"
          and h = example_heap and collection = "[]", THEN conjunct1, rule_format])
qed

text \<open>
  Two remote records for one identifier and one local record: the lengths differ, the
  chunk succeeds and stores one document.
\<close>

theorem merge_length_mismatch_counterexample:
  "length [10, 11 :: nat] \<noteq> length [20 :: nat]
   \<and> fst (collect_chunk_annotations_and_store [''chr1:g.100A>G''] [10, 11] (Some [20])
            example_heap []) = Inr ()
   \<and> length (snd (snd (collect_chunk_annotations_and_store [''chr1:g.100A>G''] [10, 11] (Some [20])
            example_heap []))) = 1"
  by (simp add: collect_chunk_annotations_and_store_def merge_annovar_and_myvariant_dicts_def
      getitem_def store_annotations_to_db_def example_heap_def)

end
